theory Spec2Isabelle
  imports Complex_Main "HOL-Library.Word" "HOL-Library.Log_Nat"
begin

unbundle bit_operations_syntax

section \<open>IEEE-754 binary32 values as bit patterns\<close>

text \<open>
  The routine \<^verbatim>\<open>pl/math/v_exp10f_2u4.c\<close> works on \<^verbatim>\<open>float32x4_t\<close> and
  \<^verbatim>\<open>uint32x4_t\<close> and moves freely between both views of a lane
  (\<^verbatim>\<open>vreinterpretq_u32_f32\<close>, \<^verbatim>\<open>vreinterpretq_f32_u32\<close>). A lane is therefore a
  32-bit word in this development; the floating-point view of a word is obtained by
  decoding its sign, exponent field and fraction field.
\<close>

type_synonym u32 = "32 word"
type_synonym f32 = "32 word"

text \<open>
  A decoded value: a NaN, a signed infinity, or a signed dyadic number
  \<open>(-1)^s * m * 2^e\<close> with magnitude \<open>m \<ge> 0\<close> (a zero keeps its sign).
\<close>

datatype fval = VNaN | VInf bool | VFin bool int int

definition sign_of :: "f32 \<Rightarrow> bool" where
  "sign_of w = (2 ^ 31 \<le> uint w)"

definition expo_of :: "f32 \<Rightarrow> int" where
  "expo_of w = (uint w div 2 ^ 23) mod 2 ^ 8"

definition frac_of :: "f32 \<Rightarrow> int" where
  "frac_of w = uint w mod 2 ^ 23"

definition is_nan :: "f32 \<Rightarrow> bool" where
  "is_nan w = (expo_of w = 255 \<and> frac_of w \<noteq> 0)"

definition is_inf :: "f32 \<Rightarrow> bool" where
  "is_inf w = (expo_of w = 255 \<and> frac_of w = 0)"

definition is_finite :: "f32 \<Rightarrow> bool" where
  "is_finite w = (expo_of w < 255)"

definition is_normal :: "f32 \<Rightarrow> bool" where
  "is_normal w = (0 < expo_of w \<and> expo_of w < 255)"

definition decode :: "f32 \<Rightarrow> fval" where
  "decode w =
     (if expo_of w = 255 then (if frac_of w = 0 then VInf (sign_of w) else VNaN)
      else if expo_of w = 0 then VFin (sign_of w) (frac_of w) (- 149)
      else VFin (sign_of w) (2 ^ 23 + frac_of w) (expo_of w - 150))"

text \<open>The real number a finite word stands for (0 for the others).\<close>

fun fval_real :: "fval \<Rightarrow> real" where
  "fval_real (VFin s m e) = (if s then - 1 else 1) * of_int m * 2 powi e"
| "fval_real _ = 0"

definition valof :: "f32 \<Rightarrow> real" where
  "valof w = fval_real (decode w)"

subsection \<open>Rounding to nearest, ties to even\<close>

definition rne_shift :: "int \<Rightarrow> nat \<Rightarrow> int" where
  "rne_shift m k =
     (let q = m div 2 ^ k; r = m mod 2 ^ k; h = 2 ^ (k - 1)
      in if k = 0 then m
         else if h < r \<or> (r = h \<and> odd q) then q + 1 else q)"

text \<open>
  The bit pattern of the magnitude \<open>m * 2^e\<close> (\<open>m > 0\<close>) rounded to binary32: the
  quantum exponent is that of a 24-bit significand, but never below \<open>-149\<close> (gradual
  underflow); a carry out of the significand moves into the exponent field by the
  addition; anything at or beyond the pattern of infinity is infinity.
\<close>

definition round_mag :: "int \<Rightarrow> int \<Rightarrow> int" where
  "round_mag m e =
     (if m \<le> 0 then 0
      else let qe = max (bitlen m - 1 + e - 23) (- 149);
               mant = (if qe \<le> e then m * 2 ^ nat (e - qe) else rne_shift m (nat (qe - e)));
               bits = (qe + 149) * 2 ^ 23 + mant
           in if 2139095040 \<le> bits then 2139095040 else bits)"

text \<open>A NaN result is the default quiet NaN \<^verbatim>\<open>0x7fc00000\<close>.\<close>

fun encode :: "fval \<Rightarrow> f32" where
  "encode VNaN = 0x7fc00000"
| "encode (VInf s) = (if s then 0xff800000 else 0x7f800000)"
| "encode (VFin s m e) = word_of_int ((if s then 2 ^ 31 else 0) + round_mag m e)"

subsection \<open>Exact arithmetic on decoded values\<close>

fun vneg :: "fval \<Rightarrow> fval" where
  "vneg VNaN = VNaN"
| "vneg (VInf s) = VInf (\<not> s)"
| "vneg (VFin s m e) = VFin (\<not> s) m e"

fun vmul :: "fval \<Rightarrow> fval \<Rightarrow> fval" where
  "vmul VNaN _ = VNaN"
| "vmul _ VNaN = VNaN"
| "vmul (VInf s) (VInf t) = VInf (s \<noteq> t)"
| "vmul (VInf s) (VFin t m e) = (if m = 0 then VNaN else VInf (s \<noteq> t))"
| "vmul (VFin s m e) (VInf t) = (if m = 0 then VNaN else VInf (s \<noteq> t))"
| "vmul (VFin s m e) (VFin t n f) = VFin (s \<noteq> t) (m * n) (e + f)"

text \<open>
  The exact sum. A zero sum is negative only when both summands are negative
  (round to nearest).
\<close>

fun vadd :: "fval \<Rightarrow> fval \<Rightarrow> fval" where
  "vadd VNaN _ = VNaN"
| "vadd _ VNaN = VNaN"
| "vadd (VInf s) (VInf t) = (if s = t then VInf s else VNaN)"
| "vadd (VInf s) (VFin t m e) = VInf s"
| "vadd (VFin s m e) (VInf t) = VInf t"
| "vadd (VFin s m e) (VFin t n f) =
     (let g = min e f;
          a = (if s then - m else m) * 2 ^ nat (e - g)
            + (if t then - n else n) * 2 ^ nat (f - g)
      in if a = 0 then VFin (s \<and> t) 0 g else VFin (a < 0) \<bar>a\<bar> g)"

subsection \<open>The lane operations of the arithmetic\<close>

text \<open>Each operation rounds once: the fused ones round the exact \<open>a + b * c\<close>.\<close>

definition fmul :: "f32 \<Rightarrow> f32 \<Rightarrow> f32" where
  "fmul a b = encode (vmul (decode a) (decode b))"

definition fsub :: "f32 \<Rightarrow> f32 \<Rightarrow> f32" where
  "fsub a b = encode (vadd (decode a) (vneg (decode b)))"

definition ffma :: "f32 \<Rightarrow> f32 \<Rightarrow> f32 \<Rightarrow> f32" where
  "ffma a b c = encode (vadd (decode a) (vmul (decode b) (decode c)))"

definition ffms :: "f32 \<Rightarrow> f32 \<Rightarrow> f32 \<Rightarrow> f32" where
  "ffms a b c = encode (vadd (decode a) (vmul (vneg (decode b)) (decode c)))"

text \<open>Comparisons are false on a NaN.\<close>

fun vabs_gt :: "fval \<Rightarrow> fval \<Rightarrow> bool" where
  "vabs_gt VNaN _ = False"
| "vabs_gt _ VNaN = False"
| "vabs_gt (VInf s) (VInf t) = False"
| "vabs_gt (VInf s) (VFin t m e) = True"
| "vabs_gt (VFin s m e) (VInf t) = False"
| "vabs_gt (VFin s m e) (VFin t n f) =
     (n * 2 ^ nat (f - min e f) < m * 2 ^ nat (e - min e f))"

fun vle_zero :: "fval \<Rightarrow> bool" where
  "vle_zero VNaN = False"
| "vle_zero (VInf s) = s"
| "vle_zero (VFin s m e) = (s \<or> m = 0)"

text \<open>The result of a comparison in one lane: all ones (\<open>- 1\<close>) or zero.\<close>

definition mask_of :: "bool \<Rightarrow> u32" where
  "mask_of b = (if b then - 1 else 0)"

text \<open>
  A hexadecimal floating constant of the source: \<^verbatim>\<open>0x1.26bb16p+1f\<close> is
  \<open>hexf 0x126bb16 24 1\<close>, the digits read as an integer, the number of fraction bits
  they carry (four for each digit after the point), and the binary exponent.
\<close>

definition hexf :: "int \<Rightarrow> int \<Rightarrow> int \<Rightarrow> f32" where
  "hexf m fb p = encode (if m < 0 then VFin True (- m) (p - fb) else VFin False m (p - fb))"

section \<open>Four-lane vectors and the intrinsics the routine uses\<close>

datatype 'a vec4 = Vec4 'a 'a 'a 'a

type_synonym float32x4_t = "f32 vec4"
type_synonym uint32x4_t = "u32 vec4"

fun lane :: "'a vec4 \<Rightarrow> nat \<Rightarrow> 'a" where
  "lane (Vec4 a b c d) i = (if i = 0 then a else if i = 1 then b else if i = 2 then c else d)"

fun lanewise1 :: "('a \<Rightarrow> 'b) \<Rightarrow> 'a vec4 \<Rightarrow> 'b vec4" where
  "lanewise1 f (Vec4 a0 a1 a2 a3) = Vec4 (f a0) (f a1) (f a2) (f a3)"

fun lanewise2 :: "('a \<Rightarrow> 'b \<Rightarrow> 'c) \<Rightarrow> 'a vec4 \<Rightarrow> 'b vec4 \<Rightarrow> 'c vec4" where
  "lanewise2 f (Vec4 a0 a1 a2 a3) (Vec4 b0 b1 b2 b3) =
     Vec4 (f a0 b0) (f a1 b1) (f a2 b2) (f a3 b3)"

fun lanewise3 :: "('a \<Rightarrow> 'b \<Rightarrow> 'c \<Rightarrow> 'd) \<Rightarrow> 'a vec4 \<Rightarrow> 'b vec4 \<Rightarrow> 'c vec4 \<Rightarrow> 'd vec4" where
  "lanewise3 f (Vec4 a0 a1 a2 a3) (Vec4 b0 b1 b2 b3) (Vec4 c0 c1 c2 c3) =
     Vec4 (f a0 b0 c0) (f a1 b1 c1) (f a2 b2 c2) (f a3 b3 c3)"

text \<open>\<^verbatim>\<open>V4 (x)\<close>, \<^verbatim>\<open>v_f32 (x)\<close> and \<^verbatim>\<open>v_u32 (x)\<close>: the same value in every lane.\<close>

definition V4 :: "'a \<Rightarrow> 'a vec4" where
  "V4 x = Vec4 x x x x"

definition v_f32 :: "f32 \<Rightarrow> float32x4_t" where
  "v_f32 x = V4 x"

definition v_u32 :: "u32 \<Rightarrow> uint32x4_t" where
  "v_u32 x = V4 x"

definition vreinterpretq_u32_f32 :: "float32x4_t \<Rightarrow> uint32x4_t" where
  "vreinterpretq_u32_f32 v = v"

definition vreinterpretq_f32_u32 :: "uint32x4_t \<Rightarrow> float32x4_t" where
  "vreinterpretq_f32_u32 v = v"

definition vandq_u32 :: "uint32x4_t \<Rightarrow> uint32x4_t \<Rightarrow> uint32x4_t" where
  "vandq_u32 = lanewise2 (\<lambda>a b. a AND b)"

definition vaddq_u32 :: "uint32x4_t \<Rightarrow> uint32x4_t \<Rightarrow> uint32x4_t" where
  "vaddq_u32 = lanewise2 (\<lambda>a b. a + b)"

definition vsubq_u32 :: "uint32x4_t \<Rightarrow> uint32x4_t \<Rightarrow> uint32x4_t" where
  "vsubq_u32 = lanewise2 (\<lambda>a b. a - b)"

definition vshlq_n_u32 :: "uint32x4_t \<Rightarrow> nat \<Rightarrow> uint32x4_t" where
  "vshlq_n_u32 v k = lanewise1 (push_bit k) v"

text \<open>A comparison gives all ones in a lane where it holds, zero elsewhere.\<close>

definition vcgeq_u32 :: "uint32x4_t \<Rightarrow> uint32x4_t \<Rightarrow> uint32x4_t" where
  "vcgeq_u32 = lanewise2 (\<lambda>a b. mask_of (b \<le> a))"

text \<open>\<^verbatim>\<open>vcagtq_f32 (a, b)\<close> is \<open>|a| > |b|\<close>; \<^verbatim>\<open>vclezq_f32 (a)\<close> is \<open>a \<le> 0\<close>.\<close>

definition fcagt :: "f32 \<Rightarrow> f32 \<Rightarrow> bool" where
  "fcagt a b = vabs_gt (decode a) (decode b)"

definition fclez :: "f32 \<Rightarrow> bool" where
  "fclez a = vle_zero (decode a)"

definition vcagtq_f32 :: "float32x4_t \<Rightarrow> float32x4_t \<Rightarrow> uint32x4_t" where
  "vcagtq_f32 = lanewise2 (\<lambda>a b. mask_of (fcagt a b))"

definition vclezq_f32 :: "float32x4_t \<Rightarrow> uint32x4_t" where
  "vclezq_f32 = lanewise1 (\<lambda>a. mask_of (fclez a))"

text \<open>\<^verbatim>\<open>vbslq_f32 (m, a, b)\<close> takes each bit from \<open>a\<close> where \<open>m\<close> is set, else from \<open>b\<close>.\<close>

definition bsl :: "u32 \<Rightarrow> f32 \<Rightarrow> f32 \<Rightarrow> f32" where
  "bsl m a b = (m AND a) OR (NOT m AND b)"

definition vbslq_f32 :: "uint32x4_t \<Rightarrow> float32x4_t \<Rightarrow> float32x4_t \<Rightarrow> float32x4_t" where
  "vbslq_f32 = lanewise3 bsl"

text \<open>
  \<^verbatim>\<open>vfmaq_f32 (a, b, c)\<close> is \<open>a + b * c\<close> and \<^verbatim>\<open>vfmsq_f32 (a, b, c)\<close> is
  \<open>a - b * c\<close>, each rounded once.
\<close>

definition vfmaq_f32 :: "float32x4_t \<Rightarrow> float32x4_t \<Rightarrow> float32x4_t \<Rightarrow> float32x4_t" where
  "vfmaq_f32 = lanewise3 ffma"

definition vfmsq_f32 :: "float32x4_t \<Rightarrow> float32x4_t \<Rightarrow> float32x4_t \<Rightarrow> float32x4_t" where
  "vfmsq_f32 = lanewise3 ffms"

definition vmulq_f32 :: "float32x4_t \<Rightarrow> float32x4_t \<Rightarrow> float32x4_t" where
  "vmulq_f32 = lanewise2 fmul"

definition vsubq_f32 :: "float32x4_t \<Rightarrow> float32x4_t \<Rightarrow> float32x4_t" where
  "vsubq_f32 = lanewise2 fsub"

text \<open>
  Modelled from the spec: \<^verbatim>\<open>v_any_u32\<close> of \<^verbatim>\<open>v_math.h\<close>, which is not among the
  sources: "if no lane needs special handling, return the ordinary reconstruction",
  so it holds when some lane of the mask is not zero.
\<close>

fun v_any_u32 :: "uint32x4_t \<Rightarrow> bool" where
  "v_any_u32 (Vec4 a b c d) = (a \<noteq> 0 \<or> b \<noteq> 0 \<or> c \<noteq> 0 \<or> d \<noteq> 0)"

text \<open>
  Modelled from the spec: \<^verbatim>\<open>v_call_f32\<close> of \<^verbatim>\<open>v_math.h\<close>, which is not among the
  sources: "flagged lanes are recomputed by invoking the scalar reference routine per
  flagged lane and substituting its result".
\<close>

definition v_call_f32 ::
  "(f32 \<Rightarrow> f32) \<Rightarrow> float32x4_t \<Rightarrow> float32x4_t \<Rightarrow> uint32x4_t \<Rightarrow> float32x4_t" where
  "v_call_f32 f x y p = lanewise3 (\<lambda>x y p. if p \<noteq> 0 then f x else y) x y p"

section \<open>The routine\<close>

subsection \<open>Constants\<close>

definition ScaleBound :: f32 where
  "ScaleBound = hexf 192 0 0"

text \<open>
  The anonymous struct of \<^verbatim>\<open>data\<close>. Its field \<^verbatim>\<open>poly\<close> is \<open>poly_coeffs\<close> here,
  as the routine also has a local variable \<^verbatim>\<open>poly\<close>.
\<close>

record exp10f_data =
  poly_coeffs :: "float32x4_t list"
  shift :: float32x4_t
  log10_2 :: float32x4_t
  log2_10_hi :: float32x4_t
  log2_10_lo :: float32x4_t
  scale_thresh :: float32x4_t

text \<open>The field \<open>scale_thresh\<close> exists in the build without \<^verbatim>\<open>WANT_SIMD_EXCEPT\<close> only.\<close>

definition data :: exp10f_data where
  "data = \<lparr>
     poly_coeffs = [V4 (hexf 0x126bb16 24 1), V4 (hexf 0x15350d2 24 1), V4 (hexf 0x104744a 24 1),
                    V4 (hexf 0x12d8176 24 0), V4 (hexf 0x112b41a 24 (- 1))],
     shift = V4 (hexf 0x18 4 23),
     log10_2 = V4 (hexf 0x1a934f 20 1),
     log2_10_hi = V4 (hexf 0x1344136 24 (- 2)),
     log2_10_lo = V4 (hexf (- 0x1ec10c) 20 (- 27)),
     scale_thresh = V4 ScaleBound \<rparr>"

definition C :: "nat \<Rightarrow> float32x4_t" where
  "C i = poly_coeffs data ! i"

definition ExponentBias :: uint32x4_t where
  "ExponentBias = v_u32 0x3f800000"

text \<open>With \<^verbatim>\<open>WANT_SIMD_EXCEPT\<close>.\<close>

definition SpecialBound_except :: f32 where
  "SpecialBound_except = hexf 38 0 0"

definition TinyBound :: uint32x4_t where
  "TinyBound = v_u32 0x20000000"

definition BigBound :: uint32x4_t where
  "BigBound = v_u32 0x42180000"

definition Thres :: uint32x4_t where
  "Thres = v_u32 0x22180000"

text \<open>Without \<^verbatim>\<open>WANT_SIMD_EXCEPT\<close>.\<close>

definition SpecialBound :: f32 where
  "SpecialBound = hexf 126 0 0"

definition SpecialOffset :: uint32x4_t where
  "SpecialOffset = v_u32 0x82000000"

definition SpecialBias :: uint32x4_t where
  "SpecialBias = v_u32 0x7f000000"

subsection \<open>The polynomial\<close>

text \<open>
  Lines 117 to 122, over any carrier with a fused multiply-add \<open>fma a b c = a + b * c\<close>
  and a product: the routine runs it on vectors, the exact polynomial is its reading
  over the reals.
\<close>

definition estrin_poly ::
  "('a \<Rightarrow> 'a \<Rightarrow> 'a \<Rightarrow> 'a) \<Rightarrow> ('a \<Rightarrow> 'a \<Rightarrow> 'a) \<Rightarrow> (nat \<Rightarrow> 'a) \<Rightarrow> 'a \<Rightarrow> 'a" where
  "estrin_poly fma mul c r =
     (let r2 = mul r r;
          p = fma (c 3) (c 4) r;
          q = fma (c 1) (c 2) r;
          q = fma q p r2;
          p = mul (c 0) r
      in fma p q r2)"

subsection \<open>The special-case handlers\<close>

text \<open>With \<^verbatim>\<open>WANT_SIMD_EXCEPT\<close>: the scalar routine \<open>exp10f\<close> on the special lanes.\<close>

definition special_case_except ::
  "(f32 \<Rightarrow> f32) \<Rightarrow> float32x4_t \<Rightarrow> float32x4_t \<Rightarrow> uint32x4_t \<Rightarrow> float32x4_t" where
  "special_case_except exp10f x y cmp = v_call_f32 exp10f x y cmp"

text \<open>Without: \<open>2^n\<close> may overflow, it is broken up into \<open>s1 * s2\<close>.\<close>

definition special_case ::
  "float32x4_t \<Rightarrow> float32x4_t \<Rightarrow> uint32x4_t \<Rightarrow> uint32x4_t \<Rightarrow> float32x4_t \<Rightarrow> float32x4_t" where
  "special_case poly n e cmp1 scale =
     (let b = vandq_u32 (vclezq_f32 n) SpecialOffset;
          s1 = vreinterpretq_f32_u32 (vaddq_u32 b SpecialBias);
          s2 = vreinterpretq_f32_u32 (vsubq_u32 e b);
          cmp2 = vcagtq_f32 n (scale_thresh data);
          r2 = vmulq_f32 s1 s1;
          r1 = vmulq_f32 (vfmaq_f32 s2 poly s2) s1;
          r0 = vfmaq_f32 scale poly scale;
          r = vbslq_f32 cmp1 r1 r0
      in vbslq_f32 cmp2 r2 r)"

subsection \<open>The entry point, in each build\<close>

text \<open>
  With \<^verbatim>\<open>WANT_SIMD_EXCEPT\<close> the entry point overwrites its parameter \<^verbatim>\<open>x\<close> before the
  arithmetic reads it, so this build is given with its state: the local variables of
  the function when it returns, and the value it returns. The parameter is \<open>x0\<close>; the
  fields are named after the locals \<^verbatim>\<open>cmp\<close>, \<^verbatim>\<open>xm\<close>, \<^verbatim>\<open>x\<close> (after line 99), \<^verbatim>\<open>z\<close>,
  \<^verbatim>\<open>n\<close>, \<^verbatim>\<open>r\<close>, \<^verbatim>\<open>e\<close>, \<^verbatim>\<open>scale\<close> and \<^verbatim>\<open>poly\<close>.
\<close>

record exp10_locals =
  var_cmp :: uint32x4_t
  var_xm :: float32x4_t
  var_x :: float32x4_t
  var_z :: float32x4_t
  var_n :: float32x4_t
  var_r :: float32x4_t
  var_e :: uint32x4_t
  var_scale :: float32x4_t
  var_poly :: float32x4_t
  returned :: float32x4_t

definition exp10_except_locals :: "(f32 \<Rightarrow> f32) \<Rightarrow> float32x4_t \<Rightarrow> exp10_locals" where
  "exp10_except_locals exp10f x0 =
     (let cmp = vcgeq_u32
                  (vsubq_u32 (vandq_u32 (vreinterpretq_u32_f32 x0) (v_u32 0x7fffffff))
                     TinyBound)
                  Thres;
          xm = x0;
          x = (if v_any_u32 cmp then vbslq_f32 cmp (v_f32 (hexf 1 0 0)) x0 else x0);
          z = vfmaq_f32 (shift data) x (log10_2 data);
          n = vsubq_f32 z (shift data);
          r = vfmsq_f32 x n (log2_10_hi data);
          r = vfmsq_f32 r n (log2_10_lo data);
          e = vshlq_n_u32 (vreinterpretq_u32_f32 z) 23;
          scale = vreinterpretq_f32_u32 (vaddq_u32 e ExponentBias);
          poly = estrin_poly vfmaq_f32 vmulq_f32 C r
      in \<lparr> var_cmp = cmp, var_xm = xm, var_x = x, var_z = z, var_n = n, var_r = r, var_e = e,
           var_scale = scale, var_poly = poly,
           returned =
             (if v_any_u32 cmp
              then special_case_except exp10f xm (vfmaq_f32 scale poly scale) cmp
              else vfmaq_f32 scale poly scale) \<rparr>)"

definition exp10_except :: "(f32 \<Rightarrow> f32) \<Rightarrow> float32x4_t \<Rightarrow> float32x4_t" where
  "exp10_except exp10f x0 = returned (exp10_except_locals exp10f x0)"

definition exp10_fast :: "float32x4_t \<Rightarrow> float32x4_t" where
  "exp10_fast x =
     (let z = vfmaq_f32 (shift data) x (log10_2 data);
          n = vsubq_f32 z (shift data);
          r = vfmsq_f32 x n (log2_10_hi data);
          r = vfmsq_f32 r n (log2_10_lo data);
          e = vshlq_n_u32 (vreinterpretq_u32_f32 z) 23;
          scale = vreinterpretq_f32_u32 (vaddq_u32 e ExponentBias);
          cmp = vcagtq_f32 n (v_f32 SpecialBound);
          poly = estrin_poly vfmaq_f32 vmulq_f32 C r
      in if v_any_u32 cmp
         then special_case poly n e cmp scale
         else vfmaq_f32 scale poly scale)"

section \<open>The computation of one lane\<close>

text \<open>
  Every intrinsic of the routine works lane by lane, so each intermediate vector has a
  reading in one lane, as a function of that lane's input. They are named here after the
  variables of the source; that the vectors of the routine have these lanes is proved
  below.
\<close>

definition coeff :: "nat \<Rightarrow> f32" where
  "coeff i = lane (C i) 0"

definition lane_z :: "f32 \<Rightarrow> f32" where
  "lane_z x = ffma (hexf 0x18 4 23) x (hexf 0x1a934f 20 1)"

definition lane_n :: "f32 \<Rightarrow> f32" where
  "lane_n x = fsub (lane_z x) (hexf 0x18 4 23)"

definition lane_r :: "f32 \<Rightarrow> f32" where
  "lane_r x =
     ffms (ffms x (lane_n x) (hexf 0x1344136 24 (- 2))) (lane_n x) (hexf (- 0x1ec10c) 20 (- 27))"

definition lane_e :: "f32 \<Rightarrow> u32" where
  "lane_e x = push_bit 23 (lane_z x)"

definition lane_scale :: "f32 \<Rightarrow> f32" where
  "lane_scale x = lane_e x + 0x3f800000"

definition lane_poly :: "f32 \<Rightarrow> f32" where
  "lane_poly x = estrin_poly ffma fmul coeff (lane_r x)"

text \<open>The ordinary result \<^verbatim>\<open>vfmaq_f32 (scale, poly, scale)\<close>.\<close>

definition lane_r0 :: "f32 \<Rightarrow> f32" where
  "lane_r0 x = ffma (lane_scale x) (lane_poly x) (lane_scale x)"

text \<open>The lanes of \<^verbatim>\<open>special_case\<close> without \<^verbatim>\<open>WANT_SIMD_EXCEPT\<close>, from \<open>n\<close> and \<open>e\<close>.\<close>

definition sc_b :: "f32 \<Rightarrow> u32" where
  "sc_b n = mask_of (fclez n) AND 0x82000000"

definition sc_s1 :: "f32 \<Rightarrow> f32" where
  "sc_s1 n = sc_b n + 0x7f000000"

definition sc_s2 :: "f32 \<Rightarrow> u32 \<Rightarrow> f32" where
  "sc_s2 n e = e - sc_b n"

definition lane_r1 :: "f32 \<Rightarrow> f32" where
  "lane_r1 x =
     fmul (ffma (sc_s2 (lane_n x) (lane_e x)) (lane_poly x) (sc_s2 (lane_n x) (lane_e x)))
       (sc_s1 (lane_n x))"

definition lane_r2 :: "f32 \<Rightarrow> f32" where
  "lane_r2 x = fmul (sc_s1 (lane_n x)) (sc_s1 (lane_n x))"

text \<open>The two classifications of a lane in that build.\<close>

definition lane_cmp1 :: "f32 \<Rightarrow> bool" where
  "lane_cmp1 x = fcagt (lane_n x) SpecialBound"

definition lane_cmp2 :: "f32 \<Rightarrow> bool" where
  "lane_cmp2 x = fcagt (lane_n x) ScaleBound"

definition lane_fast :: "f32 \<Rightarrow> f32" where
  "lane_fast x =
     (if lane_cmp2 x then lane_r2 x else if lane_cmp1 x then lane_r1 x else lane_r0 x)"

text \<open>With \<^verbatim>\<open>WANT_SIMD_EXCEPT\<close>: the test of lines 90 to 93 in one lane, and the mask.\<close>

definition lane_special :: "f32 \<Rightarrow> bool" where
  "lane_special x = (0x22180000 \<le> (x AND 0x7fffffff) - 0x20000000)"

definition except_cmp :: "float32x4_t \<Rightarrow> uint32x4_t" where
  "except_cmp x =
     vcgeq_u32
       (vsubq_u32 (vandq_u32 (vreinterpretq_u32_f32 x) (v_u32 0x7fffffff)) TinyBound)
       Thres"

text \<open>The input of the shared arithmetic in that build (lines 94 to 99).\<close>

definition except_masked :: "float32x4_t \<Rightarrow> float32x4_t" where
  "except_masked x =
     (if v_any_u32 (except_cmp x) then vbslq_f32 (except_cmp x) (v_f32 (hexf 1 0 0)) x else x)"

definition lane_except :: "(f32 \<Rightarrow> f32) \<Rightarrow> f32 \<Rightarrow> f32" where
  "lane_except exp10f x = (if lane_special x then exp10f x else lane_r0 x)"

text \<open>The mask \<open>cmp\<close> of the build without \<^verbatim>\<open>WANT_SIMD_EXCEPT\<close> (line 114).\<close>

definition fast_cmp :: "float32x4_t \<Rightarrow> uint32x4_t" where
  "fast_cmp x =
     vcagtq_f32 (vsubq_f32 (vfmaq_f32 (shift data) x (log10_2 data)) (shift data))
       (v_f32 SpecialBound)"

text \<open>
  The ordinary result of line 131 for an input vector: lines 105 to 122 without any
  classification or masking.
\<close>

definition vector_path :: "float32x4_t \<Rightarrow> float32x4_t" where
  "vector_path x =
     (let z = vfmaq_f32 (shift data) x (log10_2 data);
          n = vsubq_f32 z (shift data);
          r = vfmsq_f32 x n (log2_10_hi data);
          r = vfmsq_f32 r n (log2_10_lo data);
          e = vshlq_n_u32 (vreinterpretq_u32_f32 z) 23;
          scale = vreinterpretq_f32_u32 (vaddq_u32 e ExponentBias);
          poly = estrin_poly vfmaq_f32 vmulq_f32 C r
      in vfmaq_f32 scale poly scale)"

section \<open>Lanes of the vectors\<close>

lemma lane_lanewise1: "lane (lanewise1 f a) i = f (lane a i)"
  by (cases a) simp

lemma lane_lanewise2: "lane (lanewise2 f a b) i = f (lane a i) (lane b i)"
  by (cases a; cases b) simp

lemma lane_lanewise3: "lane (lanewise3 f a b c) i = f (lane a i) (lane b i) (lane c i)"
  by (cases a; cases b; cases c) simp

lemma lane_V4: "lane (V4 x) i = x"
  by (simp add: V4_def)

lemma lane_not_any: "\<not> v_any_u32 c \<Longrightarrow> lane c i = 0"
  by (cases c) simp

lemma lane_any: "lane c i \<noteq> 0 \<Longrightarrow> v_any_u32 c"
  by (cases c) (simp split: if_splits)

lemma lane_ops:
  "lane (v_f32 c) i = c"
  "lane (v_u32 k) i = k"
  "lane (vreinterpretq_u32_f32 a) i = lane a i"
  "lane (vreinterpretq_f32_u32 a) i = lane a i"
  "lane (vandq_u32 a b) i = lane a i AND lane b i"
  "lane (vaddq_u32 a b) i = lane a i + lane b i"
  "lane (vsubq_u32 a b) i = lane a i - lane b i"
  "lane (vshlq_n_u32 a k') i = push_bit k' (lane a i)"
  "lane (vcgeq_u32 a b) i = mask_of (lane b i \<le> lane a i)"
  "lane (vcagtq_f32 a b) i = mask_of (fcagt (lane a i) (lane b i))"
  "lane (vclezq_f32 a) i = mask_of (fclez (lane a i))"
  "lane (vbslq_f32 m a b) i = bsl (lane m i) (lane a i) (lane b i)"
  "lane (vfmaq_f32 a b c') i = ffma (lane a i) (lane b i) (lane c' i)"
  "lane (vfmsq_f32 a b c') i = ffms (lane a i) (lane b i) (lane c' i)"
  "lane (vmulq_f32 a b) i = fmul (lane a i) (lane b i)"
  "lane (vsubq_f32 a b) i = fsub (lane a i) (lane b i)"
  "lane (v_call_f32 f a b m) i = (if lane m i \<noteq> 0 then f (lane a i) else lane b i)"
  by (simp_all add: lane_lanewise1 lane_lanewise2 lane_lanewise3 lane_V4 v_f32_def v_u32_def
      vreinterpretq_u32_f32_def vreinterpretq_f32_u32_def vandq_u32_def vaddq_u32_def
      vsubq_u32_def vshlq_n_u32_def vcgeq_u32_def vcagtq_f32_def vclezq_f32_def vbslq_f32_def
      vfmaq_f32_def vfmsq_f32_def vmulq_f32_def vsubq_f32_def v_call_f32_def)

lemma lane_data:
  "lane (shift data) i = hexf 0x18 4 23"
  "lane (log10_2 data) i = hexf 0x1a934f 20 1"
  "lane (log2_10_hi data) i = hexf 0x1344136 24 (- 2)"
  "lane (log2_10_lo data) i = hexf (- 0x1ec10c) 20 (- 27)"
  "lane (scale_thresh data) i = ScaleBound"
  by (simp_all add: data_def lane_V4)

lemma bsl_mask: "bsl (mask_of c) a b = (if c then a else b)"
  by (simp add: bsl_def mask_of_def)

lemma mask_of_eq_0: "mask_of c = 0 \<longleftrightarrow> \<not> c"
  by (simp add: mask_of_def)

lemma lane_C: "i < 5 \<Longrightarrow> lane (C i) j = coeff i"
proof -
  assume "i < 5"
  then consider "i = 0" | "i = 1" | "i = 2" | "i = 3" | "i = 4" by linarith
  then show ?thesis
    by cases (simp_all add: coeff_def C_def data_def lane_V4)
qed

lemma lane_estrin:
  "lane (estrin_poly vfmaq_f32 vmulq_f32 C r) i = estrin_poly ffma fmul coeff (lane r i)"
  by (simp add: estrin_poly_def Let_def lane_ops lane_C)

lemma lane_except_cmp: "lane (except_cmp x) i = mask_of (lane_special (lane x i))"
  by (simp add: except_cmp_def lane_special_def lane_ops TinyBound_def Thres_def)

lemma lane_fast_cmp: "lane (fast_cmp x) i = mask_of (lane_cmp1 (lane x i))"
  by (simp add: fast_cmp_def lane_cmp1_def lane_n_def lane_z_def lane_ops lane_data)

lemma lane_special_case:
  "lane (special_case poly n e cmp1 scale) i =
     bsl (mask_of (fcagt (lane n i) ScaleBound))
       (fmul (sc_s1 (lane n i)) (sc_s1 (lane n i)))
       (bsl (lane cmp1 i)
          (fmul (ffma (sc_s2 (lane n i) (lane e i)) (lane poly i) (sc_s2 (lane n i) (lane e i)))
             (sc_s1 (lane n i)))
          (ffma (lane scale i) (lane poly i) (lane scale i)))"
  by (simp add: special_case_def Let_def lane_ops lane_data sc_s1_def sc_s2_def sc_b_def
      SpecialOffset_def SpecialBias_def)

lemma exp10_fast_alt:
  "exp10_fast x =
     (let z = vfmaq_f32 (shift data) x (log10_2 data);
          n = vsubq_f32 z (shift data);
          r = vfmsq_f32 x n (log2_10_hi data);
          r = vfmsq_f32 r n (log2_10_lo data);
          e = vshlq_n_u32 (vreinterpretq_u32_f32 z) 23;
          scale = vreinterpretq_f32_u32 (vaddq_u32 e ExponentBias);
          poly = estrin_poly vfmaq_f32 vmulq_f32 C r
      in if v_any_u32 (fast_cmp x)
         then special_case poly n e (fast_cmp x) scale
         else vfmaq_f32 scale poly scale)"
  by (simp add: exp10_fast_def fast_cmp_def Let_def)

lemma pow2_nat_powi: "0 \<le> k \<Longrightarrow> (2::real) ^ nat k = 2 powi k"
  by (simp add: power_int_def)

lemma vabs_gt_fin:
  "vabs_gt (VFin s m e) (VFin t n f)
     \<longleftrightarrow> real_of_int n * 2 powi f < real_of_int m * 2 powi e"
proof -
  define g where "g = min e f"
  have ge: "0 \<le> e - g" and gf: "0 \<le> f - g" by (simp_all add: g_def)
  have "vabs_gt (VFin s m e) (VFin t n f)
          \<longleftrightarrow> n * 2 ^ nat (f - g) < m * 2 ^ nat (e - g)"
    by (simp add: g_def)
  also have "\<dots> \<longleftrightarrow> real_of_int (n * 2 ^ nat (f - g)) < real_of_int (m * 2 ^ nat (e - g))"
    by (simp only: of_int_less_iff)
  also have "\<dots> \<longleftrightarrow> real_of_int n * 2 powi (f - g) < real_of_int m * 2 powi (e - g)"
    using ge gf by (simp add: pow2_nat_powi)
  also have "\<dots> \<longleftrightarrow> (real_of_int n * 2 powi f) * 2 powi (- g)
                      < (real_of_int m * 2 powi e) * 2 powi (- g)"
    by (simp add: power_int_diff power_int_minus field_simps)
  also have "\<dots> \<longleftrightarrow> real_of_int n * 2 powi f < real_of_int m * 2 powi e"
    by (rule mult_less_cancel_right_pos) simp
  finally show ?thesis .
qed

lemma decode_bounds:
  "decode ScaleBound = VFin False 12582912 (- 16)"
  "decode SpecialBound = VFin False 16515072 (- 17)"
  by code_simp+

lemma cmp2_imp_cmp1: "fcagt n ScaleBound \<Longrightarrow> fcagt n SpecialBound"
proof (cases "decode n")
  case (VFin s m e)
  assume "fcagt n ScaleBound"
  then have "real_of_int 12582912 * 2 powi (- 16) < real_of_int m * 2 powi e"
    by (simp add: fcagt_def VFin decode_bounds vabs_gt_fin del: vabs_gt.simps)
  then have "real_of_int 16515072 * 2 powi (- 17) < real_of_int m * 2 powi e"
    by (simp add: power_int_minus)
  then show ?thesis
    by (simp add: fcagt_def VFin decode_bounds vabs_gt_fin del: vabs_gt.simps)
qed (simp_all add: fcagt_def decode_bounds)

lemma lane_exp10_fast: "lane (exp10_fast x) i = lane_fast (lane x i)"
proof (cases "v_any_u32 (fast_cmp x)")
  case True
  then show ?thesis
    by (simp add: exp10_fast_alt Let_def lane_special_case lane_fast_cmp lane_estrin lane_ops
        lane_data ExponentBias_def bsl_mask lane_fast_def lane_cmp2_def lane_cmp1_def lane_r2_def
        lane_r1_def lane_r0_def lane_poly_def lane_scale_def lane_e_def lane_r_def lane_n_def
        lane_z_def)
next
  case False
  then have "lane (fast_cmp x) i = 0" by (rule lane_not_any)
  then have c1: "\<not> lane_cmp1 (lane x i)" by (simp add: lane_fast_cmp mask_of_eq_0)
  then have c2: "\<not> lane_cmp2 (lane x i)"
    using cmp2_imp_cmp1 by (auto simp: lane_cmp1_def lane_cmp2_def)
  from False c1 c2 show ?thesis
    by (simp add: exp10_fast_alt Let_def lane_estrin lane_ops
        lane_data ExponentBias_def lane_fast_def lane_r0_def lane_poly_def lane_scale_def
        lane_e_def lane_r_def lane_n_def lane_z_def)
qed

lemma lane_except_masked:
  "lane (except_masked x) i = (if lane_special (lane x i) then hexf 1 0 0 else lane x i)"
proof (cases "v_any_u32 (except_cmp x)")
  case True
  then show ?thesis
    by (simp add: except_masked_def lane_ops lane_except_cmp bsl_mask)
next
  case False
  then have "lane (except_cmp x) i = 0" by (rule lane_not_any)
  then have "\<not> lane_special (lane x i)" by (simp add: lane_except_cmp mask_of_eq_0)
  with False show ?thesis by (simp add: except_masked_def)
qed

lemma lane_vector_path: "lane (vector_path x) i = lane_r0 (lane x i)"
  by (simp add: vector_path_def Let_def lane_estrin lane_ops
        lane_data ExponentBias_def lane_r0_def lane_poly_def lane_scale_def
        lane_e_def lane_r_def lane_n_def lane_z_def)

lemma exp10_except_alt:
  "exp10_except exp10f x =
     (if v_any_u32 (except_cmp x)
      then special_case_except exp10f x (vector_path (except_masked x)) (except_cmp x)
      else vector_path (except_masked x))"
  by (simp add: exp10_except_def exp10_except_locals_def except_cmp_def except_masked_def
      vector_path_def Let_def)

lemma lane_exp10_except:
  "lane (exp10_except exp10f x) i = lane_except exp10f (lane x i)"
proof (cases "v_any_u32 (except_cmp x)")
  case True
  show ?thesis
  proof (cases "lane_special (lane x i)")
    case sp: True
    with True show ?thesis
      by (simp add: exp10_except_alt special_case_except_def lane_ops lane_except_cmp
          mask_of_def lane_except_def)
  next
    case sp: False
    then have m: "lane (except_masked x) i = lane x i" by (simp add: lane_except_masked)
    from True sp show ?thesis
      by (simp add: exp10_except_alt special_case_except_def lane_ops lane_except_cmp
          mask_of_def lane_except_def lane_vector_path m)
  qed
next
  case False
  then have "lane (except_cmp x) i = 0" by (rule lane_not_any)
  then have sp: "\<not> lane_special (lane x i)" by (simp add: lane_except_cmp mask_of_eq_0)
  then have m: "lane (except_masked x) i = lane x i" by (simp add: lane_except_masked)
  from False sp show ?thesis
    by (simp add: exp10_except_alt lane_except_def lane_vector_path m)
qed

text \<open>
  The local variables of the entry point with \<^verbatim>\<open>WANT_SIMD_EXCEPT\<close>, and the arithmetic
  of a lane whose input is \<open>1.0\<close>: \<open>z\<close> is \<open>shift + 3\<close> and the result is \<open>10\<close>.
\<close>

lemma locals_except:
  "var_cmp (exp10_except_locals exp10f x0) = except_cmp x0"
  "var_xm (exp10_except_locals exp10f x0) = x0"
  "var_x (exp10_except_locals exp10f x0) = except_masked x0"
  "var_z (exp10_except_locals exp10f x0) = vfmaq_f32 (shift data) (except_masked x0) (log10_2 data)"
  "vfmaq_f32 (var_scale (exp10_except_locals exp10f x0)) (var_poly (exp10_except_locals exp10f x0))
     (var_scale (exp10_except_locals exp10f x0)) = vector_path (except_masked x0)"
  by (simp_all add: exp10_except_locals_def except_cmp_def except_masked_def vector_path_def
      Let_def)

lemma at_one:
  "lane_z (hexf 1 0 0) = 0x4b400003"
  "lane_r0 (hexf 1 0 0) = hexf 10 0 0"
  by code_simp+

section \<open>The classification with \<^verbatim>\<open>WANT_SIMD_EXCEPT\<close>, by bits and by value\<close>

lemma special_range:
  fixes a :: u32
  shows "0x22180000 \<le> a - 0x20000000 \<longleftrightarrow> a < 0x20000000 \<or> 0x42180000 \<le> a"
proof -
  have "uint a < 2 ^ 32" using uint_lt2p [of a] by simp
  then show ?thesis
    by (simp add: word_le_def word_less_def uint_sub_if')
qed

lemma uint_abs_bits: "uint (x AND 0x7fffffff) = uint (x :: u32) mod 2 ^ 31"
proof -
  have "(0x7fffffff :: u32) = mask 31" by (simp add: mask_eq_exp_minus_1)
  then have "x AND 0x7fffffff = take_bit 31 x" by (simp only: take_bit_eq_mask)
  then have "uint (x AND 0x7fffffff) = take_bit 31 (uint x)"
    by (simp only: unsigned_take_bit_eq)
  then show ?thesis by (simp add: take_bit_eq_mod)
qed

lemma expo_of_alt: "expo_of x = (uint x mod 2 ^ 31) div 2 ^ 23"
proof -
  have "drop_bit 23 (take_bit 31 (uint x)) = take_bit (31 - 23) (drop_bit 23 (uint x))"
    by (rule drop_bit_take_bit)
  then show ?thesis
    by (simp add: expo_of_def drop_bit_eq_div take_bit_eq_mod)
qed

lemma frac_of_alt: "frac_of x = (uint x mod 2 ^ 31) mod 2 ^ 23"
  by (simp add: frac_of_def mod_mod_cancel)

lemma abs_bits_split: "uint (x AND 0x7fffffff) = expo_of x * 2 ^ 23 + frac_of x"
  by (simp add: uint_abs_bits expo_of_alt frac_of_alt)

lemma frac_of_bounds: "0 \<le> frac_of x" "frac_of x < 2 ^ 23"
  by (simp_all add: frac_of_def)

lemma expo_of_bounds: "0 \<le> expo_of x" "expo_of x < 256"
  by (simp_all add: expo_of_def)


lemma abs_valof:
  "expo_of x < 255 \<Longrightarrow>
     \<bar>valof x\<bar> = (if expo_of x = 0 then real_of_int (frac_of x) * 2 powi (- 149)
                   else real_of_int (2 ^ 23 + frac_of x) * 2 powi (expo_of x - 150))"
  using frac_of_bounds(1) [of x]
  by (simp add: valof_def decode_def abs_mult)

lemma subnormal_bound: "expo_of x = 0 \<Longrightarrow> \<bar>valof x\<bar> < 2 powi (- 126)"
proof -
  assume e: "expo_of x = 0"
  have "real_of_int (frac_of x) < 2 ^ 23"
    using frac_of_bounds(2) [of x] by (metis of_int_less_numeral_power_cancel_iff)
  then have "real_of_int (frac_of x) * 2 powi (- 149) < 2 ^ 23 * 2 powi (- 149)"
    by (simp add: mult_less_cancel_right_pos)
  also have "\<dots> = 2 powi (- 126)"
    by (simp add: power_int_minus)
  finally show ?thesis using e by (simp add: abs_valof)
qed

lemma normal_bounds:
  assumes "0 < expo_of x" "expo_of x < 255"
  shows "2 powi (expo_of x - 127) \<le> \<bar>valof x\<bar>" "\<bar>valof x\<bar> < 2 powi (expo_of x - 126)"
proof -
  let ?p = "(2::real) powi (expo_of x - 150)"
  have v: "\<bar>valof x\<bar> = real_of_int (2 ^ 23 + frac_of x) * ?p"
    using assms by (simp add: abs_valof)
  have lo: "(2::real) ^ 23 \<le> real_of_int (2 ^ 23 + frac_of x)"
    using frac_of_bounds(1) [of x] by simp
  have "real_of_int (frac_of x) < 2 ^ 23"
    using frac_of_bounds(2) [of x] by (metis of_int_less_numeral_power_cancel_iff)
  then have hi: "real_of_int (2 ^ 23 + frac_of x) < 2 ^ 24" by simp
  have "(2::real) powi (23 + (expo_of x - 150)) = 2 powi 23 * ?p"
    by (rule power_int_add) simp
  then have "2 powi (expo_of x - 127) = (2::real) powi 23 * ?p"
    by (simp add: algebra_simps)
  also have "\<dots> \<le> real_of_int (2 ^ 23 + frac_of x) * ?p"
    using lo by (intro mult_right_mono) simp_all
  finally show "2 powi (expo_of x - 127) \<le> \<bar>valof x\<bar>" by (simp add: v)
  have "real_of_int (2 ^ 23 + frac_of x) * ?p < 2 ^ 24 * ?p"
    using hi by (simp add: mult_less_cancel_right_pos)
  also have "\<dots> = (2::real) powi 24 * ?p" by simp
  also have "\<dots> = 2 powi (24 + (expo_of x - 150))"
    by (rule power_int_add [symmetric]) simp
  also have "\<dots> = 2 powi (expo_of x - 126)"
    by (simp add: algebra_simps)
  finally show "\<bar>valof x\<bar> < 2 powi (expo_of x - 126)" by (simp add: v)
qed

lemma lane_special_bits:
  "lane_special x
     \<longleftrightarrow> expo_of x * 2 ^ 23 + frac_of x < 0x20000000
         \<or> 0x42180000 \<le> expo_of x * 2 ^ 23 + frac_of x"
proof -
  have "lane_special x
          \<longleftrightarrow> x AND 0x7fffffff < 0x20000000 \<or> 0x42180000 \<le> x AND 0x7fffffff"
    by (simp add: lane_special_def special_range)
  also have "\<dots> \<longleftrightarrow> uint (x AND 0x7fffffff) < 0x20000000
                      \<or> 0x42180000 \<le> uint (x AND 0x7fffffff)"
    by (simp add: word_le_def word_less_def)
  finally show ?thesis by (simp only: abs_bits_split)
qed

lemma pow2_le: "a \<le> b \<Longrightarrow> (2::real) powi a \<le> 2 powi b"
  by (rule power_int_increasing) simp_all

lemma lane_special_values:
  "lane_special x
     \<longleftrightarrow> is_nan x \<or> is_inf x
         \<or> (is_finite x \<and> (\<bar>valof x\<bar> < 2 powi (- 63) \<or> 38 \<le> \<bar>valof x\<bar>))"
proof -
  define E where "E = expo_of x"
  define F where "F = frac_of x"
  define v where "v = \<bar>valof x\<bar>"
  have F: "0 \<le> F" "F < 2 ^ 23" using frac_of_bounds [of x] by (simp_all add: F_def)
  have E: "0 \<le> E" "E < 256" using expo_of_bounds [of x] by (simp_all add: E_def)
  have sp: "lane_special x \<longleftrightarrow> E * 2 ^ 23 + F < 0x20000000 \<or> 0x42180000 \<le> E * 2 ^ 23 + F"
    by (simp add: lane_special_bits E_def F_def)
  have sb: "E = 0 \<Longrightarrow> v < 2 powi (- 126)"
    unfolding E_def v_def by (rule subnormal_bound)
  have nlo: "0 < E \<Longrightarrow> E < 255 \<Longrightarrow> 2 powi (E - 127) \<le> v"
    and nhi: "0 < E \<Longrightarrow> E < 255 \<Longrightarrow> v < 2 powi (E - 126)"
    unfolding E_def v_def by (rule normal_bounds; assumption)+
  have cls: "is_finite x \<longleftrightarrow> E < 255" "is_nan x \<or> is_inf x \<longleftrightarrow> E = 255"
    by (auto simp: is_finite_def is_nan_def is_inf_def E_def)
  have goal: "lane_special x \<longleftrightarrow> E = 255 \<or> (E < 255 \<and> (v < 2 powi (- 63) \<or> 38 \<le> v))"
  proof -
    consider "E = 255" | "E = 0" | "0 < E" "E < 64" | "64 \<le> E" "E < 132" | "E = 132"
      | "133 \<le> E" "E < 255"
      using E by linarith
    then show ?thesis
    proof cases
      case 1
      then have "lane_special x" using F by (simp add: sp)
      with 1 show ?thesis by blast
    next
      case 2
      then have "lane_special x" using F by (simp add: sp)
      moreover have "v < 2 powi (- 126)" using 2 by (rule sb)
      then have "v < 2 powi (- 63)"
        by (rule less_le_trans) (rule pow2_le, simp)
      ultimately show ?thesis using 2 by simp
    next
      case 3
      then have "lane_special x" using F by (simp add: sp)
      moreover have "v < 2 powi (E - 126)" using 3 by (intro nhi) simp_all
      then have "v < 2 powi (- 63)"
        by (rule less_le_trans) (rule pow2_le, use 3 in simp)
      ultimately show ?thesis using 3 by simp
    next
      case 4
      then have "\<not> lane_special x" using F by (simp add: sp)
      moreover have "2 powi (E - 127) \<le> v" using 4 by (intro nlo) simp_all
      with pow2_le [of "- 63" "E - 127"] have "\<not> v < 2 powi (- 63)" using 4 by simp
      moreover have "v < 2 powi (E - 126)" using 4 by (intro nhi) simp_all
      with pow2_le [of "E - 126" 5] have "v < 2 powi 5" using 4 by simp
      then have "\<not> 38 \<le> v" by simp
      ultimately show ?thesis using 4 by simp
    next
      case 5
      have ve: "v = real_of_int (2 ^ 23 + F) * 2 powi (- 18)"
        using 5 by (simp add: v_def abs_valof E_def F_def)
      have "2 powi (E - 127) \<le> v" using 5 by (intro nlo) simp_all
      with pow2_le [of "- 63" "E - 127"] have big: "\<not> v < 2 powi (- 63)" using 5 by simp
      have "38 \<le> v \<longleftrightarrow> real_of_int 9961472 \<le> real_of_int (2 ^ 23 + F)"
        by (simp add: ve power_int_minus field_simps)
      also have "\<dots> \<longleftrightarrow> 9961472 \<le> 2 ^ 23 + F"
        by (rule of_int_le_iff)
      also have "\<dots> \<longleftrightarrow> lane_special x" using 5 F by (auto simp: sp)
      finally show ?thesis using 5 big by simp
    next
      case 6
      then have "lane_special x" using F by (simp add: sp)
      moreover have "2 powi (E - 127) \<le> v" using 6 by (intro nlo) simp_all
      with pow2_le [of 6 "E - 127"] have "2 powi 6 \<le> v" using 6 by simp
      then have "38 \<le> v" by simp
      ultimately show ?thesis using 6 by simp
    qed
  qed
  show ?thesis
    unfolding goal v_def [symmetric] using cls by auto
qed

section \<open>The scale factors of the fast special case\<close>

lemma sc_s1_cases: "sc_s1 n = (if fclez n then 0x01000000 else 0x7f000000)"
  by (simp add: sc_s1_def sc_b_def mask_of_def)

lemma r2_values:
  "fmul 0x01000000 0x01000000 = 0"
  "fmul 0x7f000000 0x7f000000 = 0x7f800000"
  by code_simp+

lemma r2_cases: "fmul (sc_s1 n) (sc_s1 n) = (if fclez n then 0 else 0x7f800000)"
  by (simp add: sc_s1_cases r2_values)

section \<open>Lanes that are not finite\<close>

lemma vadd_nan_right: "vadd a VNaN = VNaN"
  by (cases a) simp_all

lemma vmul_nan_right: "vmul a VNaN = VNaN"
  by (cases a) simp_all

lemma decode_nan: "is_nan x \<Longrightarrow> decode x = VNaN"
  by (simp add: decode_def is_nan_def)

lemma decode_inf: "is_inf x \<Longrightarrow> decode x = VInf (sign_of x)"
  by (simp add: decode_def is_inf_def)

lemma decode_consts:
  "decode 0x7fc00000 = VNaN" "decode 0x7f800000 = VInf False" "decode 0xff800000 = VInf True"
  by code_simp+

text \<open>The lane functions read their input through \<open>decode\<close> only.\<close>

lemma lane_cong:
  assumes "decode x = decode y"
  shows "lane_z x = lane_z y" "lane_n x = lane_n y" "lane_r x = lane_r y"
    "lane_e x = lane_e y" "lane_scale x = lane_scale y" "lane_poly x = lane_poly y"
    "lane_r0 x = lane_r0 y" "lane_r1 x = lane_r1 y" "lane_r2 x = lane_r2 y"
    "lane_cmp1 x = lane_cmp1 y" "lane_cmp2 x = lane_cmp2 y" "lane_fast x = lane_fast y"
proof -
  show z: "lane_z x = lane_z y" using assms by (simp add: lane_z_def ffma_def)
  then show n: "lane_n x = lane_n y" by (simp add: lane_n_def)
  with assms show r: "lane_r x = lane_r y" by (simp add: lane_r_def ffms_def)
  from z show e: "lane_e x = lane_e y" by (simp add: lane_e_def)
  then show s: "lane_scale x = lane_scale y" by (simp add: lane_scale_def)
  from r show p: "lane_poly x = lane_poly y" by (simp add: lane_poly_def)
  from s p show r0: "lane_r0 x = lane_r0 y" by (simp add: lane_r0_def)
  from n e p show r1: "lane_r1 x = lane_r1 y" by (simp add: lane_r1_def)
  from n show r2: "lane_r2 x = lane_r2 y" by (simp add: lane_r2_def)
  from n show c1: "lane_cmp1 x = lane_cmp1 y" by (simp add: lane_cmp1_def)
  from n show c2: "lane_cmp2 x = lane_cmp2 y" by (simp add: lane_cmp2_def)
  from r0 r1 r2 c1 c2 show "lane_fast x = lane_fast y" by (simp add: lane_fast_def)
qed

lemma fast_at_nan:
  "\<not> lane_cmp1 0x7fc00000" "\<not> lane_cmp2 0x7fc00000" "is_nan (lane_r0 0x7fc00000)"
  by code_simp+

lemma fast_at_pinf:
  "lane_cmp1 0x7f800000" "lane_cmp2 0x7f800000" "lane_r2 0x7f800000 = 0x7f800000"
  "is_nan (lane_r 0x7f800000)"
  by code_simp+

lemma fast_at_minf:
  "lane_cmp1 0xff800000" "lane_cmp2 0xff800000" "lane_r2 0xff800000 = 0"
  "is_nan (lane_r 0xff800000)"
  by code_simp+

lemma not_finite_special: "\<not> is_finite x \<Longrightarrow> lane_special x"
proof -
  assume "\<not> is_finite x"
  then have "expo_of x = 255"
    using expo_of_bounds [of x] by (simp add: is_finite_def)
  then have "is_nan x \<or> is_inf x" by (auto simp: is_nan_def is_inf_def)
  then show ?thesis unfolding lane_special_values by blast
qed


lemma is_inf_iff: "is_inf w \<longleftrightarrow> w = 0x7f800000 \<or> w = 0xff800000"
proof
  assume inf: "is_inf w"
  define d where "d = uint w div 2 ^ 31"
  have "uint w = d * 2 ^ 31 + uint w mod 2 ^ 31" by (simp add: d_def)
  also have "uint w mod 2 ^ 31 = expo_of w * 2 ^ 23 + frac_of w"
    by (simp only: uint_abs_bits [symmetric] abs_bits_split)
  also have "\<dots> = 0x7f800000" using inf by (simp add: is_inf_def)
  finally have u: "uint w = d * 2147483648 + 2139095040" by simp
  have "uint w < 4294967296" using uint_lt2p [of w] by simp
  moreover have "0 \<le> uint w" by simp
  ultimately have "d = 0 \<or> d = 1" using u by linarith
  with u have "uint w = 0x7f800000 \<or> uint w = 0xff800000" by auto
  then have "word_of_int (uint w) = (0x7f800000 :: u32) \<or> word_of_int (uint w) = (0xff800000 :: u32)"
    by (metis word_of_int_numeral)
  then show "w = 0x7f800000 \<or> w = 0xff800000" by simp
next
  assume "w = 0x7f800000 \<or> w = 0xff800000"
  moreover have "is_inf 0x7f800000" "is_inf 0xff800000" by code_simp+
  ultimately show "is_inf w" by auto
qed

lemma not_finite_iff: "\<not> is_finite w \<longleftrightarrow> is_nan w \<or> w = 0x7f800000 \<or> w = 0xff800000"
proof -
  have "\<not> is_finite w \<longleftrightarrow> expo_of w = 255"
    using expo_of_bounds [of w] by (auto simp: is_finite_def)
  also have "\<dots> \<longleftrightarrow> is_nan w \<or> is_inf w" by (auto simp: is_nan_def is_inf_def)
  finally show ?thesis by (simp only: is_inf_iff)
qed

section \<open>Words that hold a power of two\<close>

lemma decode_mant_nonneg: "decode w = VFin s m e \<Longrightarrow> 0 \<le> m"
  using frac_of_bounds(1) [of w] by (auto simp: decode_def split: if_splits)

lemma decode_finite: "is_finite w \<Longrightarrow> \<exists>s m e. decode w = VFin s m e"
  by (simp add: decode_def is_finite_def)

lemma fclez_finite: "is_finite n \<Longrightarrow> fclez n \<longleftrightarrow> valof n \<le> 0"
proof -
  assume "is_finite n"
  then obtain s m e where d: "decode n = VFin s m e" using decode_finite by blast
  then have m: "0 \<le> m" by (rule decode_mant_nonneg)
  have p: "0 < (2::real) powi e" by simp
  show ?thesis
  proof (cases s)
    case True
    with m p show ?thesis by (simp add: fclez_def valof_def d)
  next
    case False
    have "\<not> (2::real) powi e \<le> 0" using p by (simp only: not_le)
    then have "real_of_int m * 2 powi e \<le> 0 \<longleftrightarrow> real_of_int m \<le> 0"
      using m by (auto simp: mult_le_0_iff)
    with False m show ?thesis by (auto simp: fclez_def valof_def d)
  qed
qed

lemma valof_sign: "sign_of w \<Longrightarrow> valof w \<le> 0"
proof (cases "decode w")
  case (VFin s m e)
  assume "sign_of w"
  with VFin have "s" by (auto simp: decode_def split: if_splits)
  moreover from VFin have "0 \<le> m" by (rule decode_mant_nonneg)
  ultimately show ?thesis by (simp add: valof_def VFin)
qed (simp_all add: valof_def)

lemma fields_of_exponent_word:
  assumes u: "uint w = E * 2 ^ 23" and E: "0 \<le> E" "E < 512"
  shows "expo_of w = E mod 256" "frac_of w = 0" "sign_of w \<longleftrightarrow> 256 \<le> E"
  using E by (simp_all add: expo_of_def frac_of_def sign_of_def u)

lemma valof_exponent_word:
  assumes u: "uint w = E * 2 ^ 23" and E: "0 < E" "E < 255"
  shows "is_normal w" "valof w = 2 powi (E - 127)"
proof -
  from E have f: "expo_of w = E" "frac_of w = 0" "\<not> sign_of w"
    using fields_of_exponent_word [OF u] by simp_all
  with E show "is_normal w" by (simp add: is_normal_def)
  have "(2::real) powi (23 + (E - 150)) = 2 powi 23 * 2 powi (E - 150)"
    by (rule power_int_add) simp
  then have "(2::real) ^ 23 * 2 powi (E - 150) = 2 powi (E - 127)"
    by (simp add: algebra_simps)
  with f E show "valof w = 2 powi (E - 127)"
    by (simp add: valof_def decode_def)
qed

lemma uint_exponent_word:
  assumes "0 \<le> E" "E < 512"
  shows "uint (word_of_int (E * 2 ^ 23) :: u32) = E * 2 ^ 23"
proof -
  have "0 \<le> E * 2 ^ 23" using assms by simp
  moreover have "E * 2 ^ 23 < 2 ^ 32" using assms by simp
  ultimately have "take_bit 32 (E * 2 ^ 23) = E * 2 ^ 23"
    by (rule take_bit_int_eq_self)
  then show ?thesis
    by (simp only: uint_word_of_int_eq) simp
qed

lemma shifted_exponent: "push_bit 23 (word_of_int k :: u32) = word_of_int (k * 2 ^ 23)"
  by (simp add: push_bit_eq_mult)

lemma word_of_int_wrap: "(word_of_int (a + 2 ^ 32) :: u32) = word_of_int a"
  by (simp add: word_of_int_eq_iff take_bit_eq_mod)


lemma sc_b_cases: "sc_b n = (if fclez n then 0x82000000 else 0)"
  by (simp add: sc_b_def mask_of_def)

lemma s1_values:
  "is_normal 0x01000000" "valof 0x01000000 = 2 powi (- 125)"
  "is_normal 0x7f000000" "valof 0x7f000000 = 2 powi 127"
proof -
  have u: "uint (0x01000000 :: u32) = 2 * 2 ^ 23" "uint (0x7f000000 :: u32) = 254 * 2 ^ 23"
    by simp_all
  show "is_normal 0x01000000" "is_normal 0x7f000000"
    by (rule valof_exponent_word(1) [OF u(1)], simp, simp,
        rule valof_exponent_word(1) [OF u(2)], simp, simp)
  have "valof 0x01000000 = 2 powi (2 - 127)"
    by (rule valof_exponent_word(2) [OF u(1)]) simp_all
  then show "valof 0x01000000 = 2 powi (- 125)" by simp
  have "valof 0x7f000000 = 2 powi (254 - 127)"
    by (rule valof_exponent_word(2) [OF u(2)]) simp_all
  then show "valof 0x7f000000 = 2 powi 127" by simp
qed

lemma lane_e_from_z:
  assumes "lane_z x = 0x4b400000 + word_of_int k"
  shows "lane_e x = push_bit 23 (word_of_int k)"
proof -
  have "push_bit 23 (0x4b400000 :: u32) = 0" by code_simp
  then show ?thesis by (simp only: lane_e_def assms push_bit_add) simp
qed

section \<open>Rounding, against numbers that are representable\<close>

text \<open>
  The rounded magnitude is at least the bit pattern of a normal binary32 number below the
  exact value, and at most that of one above it; bit patterns of one sign decode to values
  in the same order. The exact sum and product have the value of the sum and the product.
\<close>

lemma rne_shift_lower: "m div 2 ^ k \<le> rne_shift m k"
proof (cases "k = 0")
  case True
  then show ?thesis by (simp add: rne_shift_def)
next
  case False
  then show ?thesis by (simp add: rne_shift_def Let_def)
qed

lemma rne_shift_upper: "rne_shift m k \<le> m div 2 ^ k + 1"
proof (cases "k = 0")
  case True
  then show ?thesis by (simp add: rne_shift_def)
next
  case False
  then show ?thesis by (simp add: rne_shift_def Let_def)
qed

lemma round_mag_pos:
  assumes "0 < m"
    and "qe = max (bitlen m - 1 + e - 23) (- 149)"
    and "mant = (if qe \<le> e then m * 2 ^ nat (e - qe) else rne_shift m (nat (qe - e)))"
  shows "round_mag m e = min 2139095040 ((qe + 149) * 2 ^ 23 + mant)"
proof -
  from assms(1) have "\<not> m \<le> 0" by simp
  then have "round_mag m e =
    (if 2139095040 \<le> (qe + 149) * 2 ^ 23 + mant then 2139095040
     else (qe + 149) * 2 ^ 23 + mant)"
    unfolding round_mag_def Let_def assms(2,3) by (simp only: if_False)
  then show ?thesis by (simp only: min_def)
qed

lemma round_mant_nonneg:
  assumes "0 < m"
  shows "0 \<le> (if qe \<le> e then m * 2 ^ nat (e - qe) else rne_shift m (nat (qe - e)))"
proof -
  have "0 \<le> m div 2 ^ nat (qe - e)" using assms by (simp add: pos_imp_zdiv_nonneg_iff)
  then have "0 \<le> rne_shift m (nat (qe - e))"
    using rne_shift_lower [of m "nat (qe - e)"] by linarith
  then show ?thesis using assms by simp
qed

lemma round_mag_range: "0 \<le> round_mag m e" "round_mag m e \<le> 2139095040"
proof -
  show "round_mag m e \<le> 2139095040"
    by (simp add: round_mag_def Let_def)
  show "0 \<le> round_mag m e"
  proof (cases "m \<le> 0")
    case True
    then show ?thesis by (simp add: round_mag_def)
  next
    case False
    define qe where "qe = max (bitlen m - 1 + e - 23) (- 149)"
    define mant where
      "mant = (if qe \<le> e then m * 2 ^ nat (e - qe) else rne_shift m (nat (qe - e)))"
    from False have m: "0 < m" by simp
    have "0 \<le> mant" unfolding mant_def using m by (rule round_mant_nonneg)
    moreover have "0 \<le> qe + 149" by (simp add: qe_def)
    then have "0 \<le> (qe + 149) * 2 ^ 23" by simp
    ultimately have "0 \<le> (qe + 149) * 2 ^ 23 + mant" by linarith
    then show ?thesis
      by (simp only: round_mag_pos [OF m qe_def mant_def])
  qed
qed

lemma fields_encode:
  fixes s :: bool
  assumes "0 \<le> b" "b \<le> 2139095040"
    and w_def: "w = (word_of_int ((if s then 2 ^ 31 else 0) + b) :: u32)"
  shows "sign_of w = s" "expo_of w = b div 2 ^ 23" "frac_of w = b mod 2 ^ 23"
proof -
  have u: "uint w = (if s then 2 ^ 31 else 0) + b"
  proof -
    have "0 \<le> (if s then 2 ^ 31 else 0) + b" "(if s then 2 ^ 31 else 0) + b < 2 ^ 32"
      using assms(1,2) by simp_all
    then have "take_bit 32 ((if s then 2 ^ 31 else 0) + b) = (if s then 2 ^ 31 else 0) + b"
      by (rule take_bit_int_eq_self)
    then show ?thesis by (simp only: w_def uint_word_of_int_eq) simp
  qed
  show "sign_of w = s" using assms(1,2) by (simp add: sign_of_def u)
  have m: "(256 * 2 ^ 23 + b) mod 2 ^ 23 = b mod 2 ^ 23"
    by (rule mod_mult_self3)
  have d: "(256 * 2 ^ 23 + b) div 2 ^ 23 = 256 + b div 2 ^ 23"
    by (rule div_mult_self3) simp
  have r: "0 \<le> b div 2 ^ 23" "b div 2 ^ 23 < 256"
  proof -
    show "0 \<le> b div 2 ^ 23" using assms(1) by (simp add: pos_imp_zdiv_nonneg_iff)
    have "b div 2 ^ 23 \<le> 2139095040 div 2 ^ 23" using assms(2) by (rule zdiv_mono1) simp
    then show "b div 2 ^ 23 < 256" by simp
  qed
  show "frac_of w = b mod 2 ^ 23"
    using m by (cases s) (simp_all add: frac_of_def u)
  show "expo_of w = b div 2 ^ 23"
    using d r by (cases s) (simp_all add: expo_of_def u)
qed


lemma pow2_less_imp: "(2::real) powi a < 2 powi b \<Longrightarrow> a < b"
  using pow2_le [of b a] by (cases "a < b") simp_all

lemma pow2_shift: "(x::real) * 2 powi e = x * 2 powi (e - q) * 2 powi q"
proof -
  have "(2::real) powi (e - q + q) = 2 powi (e - q) * 2 powi q"
    by (rule power_int_add) simp
  then show ?thesis by simp
qed

lemma scaled_le_iff: "(a::real) * 2 powi q \<le> b * 2 powi q \<longleftrightarrow> a \<le> b"
  by (rule mult_le_cancel_right_pos) simp

lemma scaled_less_iff: "(a::real) * 2 powi q < b * 2 powi q \<longleftrightarrow> a < b"
  by (rule mult_less_cancel_right_pos) simp

lemma mant_bounds:
  assumes m: "0 < m"
    and mant: "mant = (if qe \<le> e then m * 2 ^ nat (e - qe) else rne_shift m (nat (qe - e)))"
  shows "real_of_int J * 2 powi qe \<le> real_of_int m * 2 powi e \<Longrightarrow> J \<le> mant"
    and "real_of_int m * 2 powi e < real_of_int J * 2 powi qe \<Longrightarrow> mant \<le> J"
proof -
  have v: "real_of_int m * 2 powi e = real_of_int m * 2 powi (e - qe) * 2 powi qe"
    by (rule pow2_shift)
  show "J \<le> mant" if "real_of_int J * 2 powi qe \<le> real_of_int m * 2 powi e"
  proof -
    from that have J: "real_of_int J \<le> real_of_int m * 2 powi (e - qe)"
      by (simp only: v scaled_le_iff)
    show ?thesis
    proof (cases "qe \<le> e")
      case True
      then have "real_of_int mant = real_of_int m * 2 powi (e - qe)"
        by (simp add: mant pow2_nat_powi)
      with J have "real_of_int J \<le> real_of_int mant" by simp
      then show ?thesis by (simp only: of_int_le_iff)
    next
      case False
      define k where "k = nat (qe - e)"
      from False have "e - qe = - int k" by (simp add: k_def)
      then have "(2::real) powi (e - qe) = 1 / 2 ^ k"
        by (simp only: power_int_minus power_int_of_nat inverse_eq_divide)
      then have "real_of_int m * 2 powi (e - qe) = real_of_int m / real_of_int (2 ^ k)"
        by simp
      with J have "J \<le> \<lfloor>real_of_int m / real_of_int (2 ^ k)\<rfloor>"
        by (simp only: le_floor_iff)
      then have "J \<le> m div 2 ^ k" by (simp only: floor_divide_of_int_eq)
      also have "\<dots> \<le> rne_shift m k" by (rule rne_shift_lower)
      finally show ?thesis using False by (simp add: mant k_def)
    qed
  qed
  show "mant \<le> J" if "real_of_int m * 2 powi e < real_of_int J * 2 powi qe"
  proof -
    from that have J: "real_of_int m * 2 powi (e - qe) < real_of_int J"
      by (simp only: v scaled_less_iff)
    show ?thesis
    proof (cases "qe \<le> e")
      case True
      then have "real_of_int mant = real_of_int m * 2 powi (e - qe)"
        by (simp add: mant pow2_nat_powi)
      with J have "real_of_int mant < real_of_int J" by simp
      then have "mant < J" by (simp only: of_int_less_iff)
      then show ?thesis by simp
    next
      case False
      define k where "k = nat (qe - e)"
      from False have "e - qe = - int k" by (simp add: k_def)
      then have "(2::real) powi (e - qe) = 1 / 2 ^ k"
        by (simp only: power_int_minus power_int_of_nat inverse_eq_divide)
      then have "real_of_int m * 2 powi (e - qe) = real_of_int m / real_of_int (2 ^ k)"
        by simp
      with J have "\<lfloor>real_of_int m / real_of_int (2 ^ k)\<rfloor> < J"
        by (simp only: floor_less_iff)
      then have "m div 2 ^ k < J" by (simp only: floor_divide_of_int_eq)
      moreover have "rne_shift m k \<le> m div 2 ^ k + 1" by (rule rne_shift_upper)
      ultimately have "rne_shift m k \<le> J" by linarith
      then show ?thesis using False by (simp add: mant k_def)
    qed
  qed
qed

lemma binade:
  assumes "0 < m"
  shows "2 powi (bitlen m - 1 + e) \<le> real_of_int m * 2 powi e"
    and "real_of_int m * 2 powi e < 2 powi (bitlen m + e)"
proof -
  from assms have L: "1 \<le> bitlen m" by (simp add: bitlen_alt_def)
  from bitlen_bounds [OF assms]
  have lo: "2 ^ nat (bitlen m - 1) \<le> m" and hi: "m < 2 ^ nat (bitlen m)" by simp_all
  from lo have "real_of_int (2 ^ nat (bitlen m - 1)) \<le> real_of_int m"
    by (simp only: of_int_le_iff)
  then have "(2::real) powi (bitlen m - 1) \<le> real_of_int m"
    using L by (simp add: pow2_nat_powi)
  then have "(2::real) powi (bitlen m - 1) * 2 powi e \<le> real_of_int m * 2 powi e"
    by (simp only: scaled_le_iff)
  moreover have "(2::real) powi (bitlen m - 1 + e) = 2 powi (bitlen m - 1) * 2 powi e"
    by (rule power_int_add) simp
  ultimately show "2 powi (bitlen m - 1 + e) \<le> real_of_int m * 2 powi e" by simp
  from hi have "real_of_int m < real_of_int (2 ^ nat (bitlen m))"
    by (simp only: of_int_less_iff)
  then have "real_of_int m < (2::real) powi (bitlen m)"
    using L by (simp add: pow2_nat_powi)
  then have "real_of_int m * 2 powi e < (2::real) powi (bitlen m) * 2 powi e"
    by (simp only: scaled_less_iff)
  moreover have "(2::real) powi (bitlen m + e) = 2 powi (bitlen m) * 2 powi e"
    by (rule power_int_add) simp
  ultimately show "real_of_int m * 2 powi e < 2 powi (bitlen m + e)" by simp
qed

lemma pow2_23: "(2::real) powi (q + 23) = 2 ^ 23 * 2 powi q"
  and pow2_24: "(2::real) powi (q + 24) = 2 ^ 24 * 2 powi q"
proof -
  have "(2::real) powi (23 + q) = 2 powi 23 * 2 powi q" by (rule power_int_add) simp
  then show "(2::real) powi (q + 23) = 2 ^ 23 * 2 powi q" by (simp add: add.commute)
  have "(2::real) powi (24 + q) = 2 powi 24 * 2 powi q" by (rule power_int_add) simp
  then show "(2::real) powi (q + 24) = 2 ^ 24 * 2 powi q" by (simp add: add.commute)
qed

lemma round_mag_ge:
  assumes m: "0 < m" and M: "2 ^ 23 \<le> M" "M < 2 ^ 24" and q: "- 149 \<le> q" "q \<le> 104"
    and le: "real_of_int M * 2 powi q \<le> real_of_int m * 2 powi e"
  shows "(q + 149) * 2 ^ 23 + M \<le> round_mag m e"
proof -
  define ex where "ex = bitlen m - 1 + e"
  define qe where "qe = max (ex - 23) (- 149)"
  define mant where
    "mant = (if qe \<le> e then m * 2 ^ nat (e - qe) else rne_shift m (nat (qe - e)))"
  define v where "v = real_of_int m * 2 powi e"
  have qe: "qe = max (bitlen m - 1 + e - 23) (- 149)" by (simp add: qe_def ex_def)
  note rm = round_mag_pos [OF m qe mant_def]
  have b1: "2 powi ex \<le> v" unfolding ex_def v_def using m by (rule binade)
  have "v < 2 powi (bitlen m + e)" unfolding v_def using m by (rule binade)
  then have b2: "v < 2 powi (ex + 1)" by (simp add: ex_def)
  have "real_of_int (2 ^ 23) \<le> real_of_int M" using M(1) by (simp only: of_int_le_iff)
  then have "(2::real) ^ 23 \<le> real_of_int M" by simp
  then have "(2::real) ^ 23 * 2 powi q \<le> real_of_int M * 2 powi q" by (simp only: scaled_le_iff)
  with le have "2 powi (q + 23) \<le> v" by (simp only: pow2_23 v_def)
  with b2 have "(2::real) powi (q + 23) < 2 powi (ex + 1)" by simp
  then have "q + 23 < ex + 1" by (rule pow2_less_imp)
  then have qq: "q \<le> qe" by (simp add: qe_def)
  have mant_ge: "M \<le> mant" if "q = qe"
    using le that by (intro mant_bounds(1) [OF m mant_def]) simp
  have mant_ge': "2 ^ 23 \<le> mant" if "q < qe"
  proof -
    from that q have "qe = ex - 23" by (simp add: qe_def max_def split: if_splits)
    then have "ex = qe + 23" by simp
    with b1 have "real_of_int (2 ^ 23) * 2 powi qe \<le> real_of_int m * 2 powi e"
      by (simp add: pow2_23 v_def)
    then show ?thesis by (rule mant_bounds(1) [OF m mant_def])
  qed
  have "(q + 149) * 2 ^ 23 + M \<le> (qe + 149) * 2 ^ 23 + mant"
  proof (cases "q = qe")
    case True
    with mant_ge show ?thesis by simp
  next
    case False
    with qq have lt: "q < qe" by simp
    then have "2 ^ 23 \<le> mant" by (rule mant_ge')
    with lt M show ?thesis by simp
  qed
  moreover have "(q + 149) * 2 ^ 23 + M \<le> 2139095040" using q M by simp
  ultimately show ?thesis by (simp only: rm min_def) simp
qed

lemma round_mag_le:
  assumes m: "0 < m" and M: "2 ^ 23 \<le> M" "M < 2 ^ 24" and q: "- 149 \<le> q"
    and lt: "real_of_int m * 2 powi e < real_of_int M * 2 powi q"
  shows "round_mag m e \<le> (q + 149) * 2 ^ 23 + M"
proof -
  define ex where "ex = bitlen m - 1 + e"
  define qe where "qe = max (ex - 23) (- 149)"
  define mant where
    "mant = (if qe \<le> e then m * 2 ^ nat (e - qe) else rne_shift m (nat (qe - e)))"
  define v where "v = real_of_int m * 2 powi e"
  have qe: "qe = max (bitlen m - 1 + e - 23) (- 149)" by (simp add: qe_def ex_def)
  note rm = round_mag_pos [OF m qe mant_def]
  have b1: "2 powi ex \<le> v" unfolding ex_def v_def using m by (rule binade)
  have "v < 2 powi (bitlen m + e)" unfolding v_def using m by (rule binade)
  then have b2: "v < 2 powi (ex + 1)" by (simp add: ex_def)
  have "real_of_int M < real_of_int (2 ^ 24)" using M(2) by (simp only: of_int_less_iff)
  then have "real_of_int M < 2 ^ 24" by simp
  then have "real_of_int M * 2 powi q < 2 ^ 24 * 2 powi q" by (simp only: scaled_less_iff)
  with lt have "v < 2 powi (q + 24)" by (simp only: pow2_24 v_def)
  with b1 have "(2::real) powi ex < 2 powi (q + 24)" by simp
  then have "ex < q + 24" by (rule pow2_less_imp)
  with q have qq: "qe \<le> q" by (simp add: qe_def)
  have "(qe + 149) * 2 ^ 23 + mant \<le> (q + 149) * 2 ^ 23 + M"
  proof (cases "q = qe")
    case True
    with lt have "mant \<le> M" by (intro mant_bounds(2) [OF m mant_def]) simp
    with True show ?thesis by simp
  next
    case False
    with qq have l: "qe < q" by simp
    have "ex + 1 \<le> qe + 24" by (simp add: qe_def)
    then have "(2::real) powi (ex + 1) \<le> 2 powi (qe + 24)" by (rule pow2_le)
    with b2 have "v < 2 powi (qe + 24)" by simp
    then have "real_of_int m * 2 powi e < real_of_int (2 ^ 24) * 2 powi qe"
      by (simp add: pow2_24 v_def)
    then have "mant \<le> 2 ^ 24" by (rule mant_bounds(2) [OF m mant_def])
    with l M show ?thesis by simp
  qed
  then show ?thesis by (simp only: rm min_def) simp
qed

lemma decode_pattern:
  fixes s :: bool
  assumes b: "0 \<le> b" "b \<le> 2139095040"
    and w: "w = (word_of_int ((if s then 2 ^ 31 else 0) + b) :: u32)"
  shows "b = 2139095040 \<Longrightarrow> decode w = VInf s"
    and "b < 2139095040 \<Longrightarrow>
      decode w = VFin s (if b div 2 ^ 23 = 0 then b mod 2 ^ 23 else 2 ^ 23 + b mod 2 ^ 23)
        (if b div 2 ^ 23 = 0 then - 149 else b div 2 ^ 23 - 150)"
proof -
  note f = fields_encode [OF b w]
  show "decode w = VInf s" if "b = 2139095040"
    using that by (simp add: decode_def f)
  show "decode w = VFin s (if b div 2 ^ 23 = 0 then b mod 2 ^ 23 else 2 ^ 23 + b mod 2 ^ 23)
        (if b div 2 ^ 23 = 0 then - 149 else b div 2 ^ 23 - 150)" if "b < 2139095040"
  proof -
    from that have "b div 2 ^ 23 \<le> 2139095039 div 2 ^ 23" by (intro zdiv_mono1) simp_all
    then have "b div 2 ^ 23 \<noteq> 255" by simp
    then show ?thesis by (simp add: decode_def f)
  qed
qed

lemma pattern_value_ge:
  assumes M: "2 ^ 23 \<le> M" "M < 2 ^ 24" and q: "- 149 \<le> q"
    and b: "(q + 149) * 2 ^ 23 + M \<le> b"
  shows "real_of_int M * 2 powi q
    \<le> real_of_int (if b div 2 ^ 23 = 0 then b mod 2 ^ 23 else 2 ^ 23 + b mod 2 ^ 23)
        * 2 powi (if b div 2 ^ 23 = 0 then - 149 else b div 2 ^ 23 - 150)"
proof -
  define E where "E = b div 2 ^ 23"
  define F where "F = b mod 2 ^ 23"
  have F: "0 \<le> F" "F < 2 ^ 23" by (simp_all add: F_def)
  have bEF: "b = E * 2 ^ 23 + F" by (simp add: E_def F_def)
  from b M q F have E: "q + 150 \<le> E" unfolding bEF by simp
  with q have E0: "E \<noteq> 0" by simp
  have "real_of_int M * 2 powi q \<le> real_of_int (2 ^ 23 + F) * 2 powi (E - 150)"
  proof (cases "E = q + 150")
    case True
    with b have "M \<le> 2 ^ 23 + F" unfolding bEF by simp
    then have "real_of_int M \<le> real_of_int (2 ^ 23 + F)" by (simp only: of_int_le_iff)
    then have "real_of_int M * 2 powi q \<le> real_of_int (2 ^ 23 + F) * 2 powi q"
      by (simp only: scaled_le_iff)
    with True show ?thesis by simp
  next
    case False
    with E have "q + 24 \<le> E - 150 + 23" by simp
    then have "(2::real) powi (q + 24) \<le> 2 powi (E - 150 + 23)" by (rule pow2_le)
    then have le: "(2::real) ^ 24 * 2 powi q \<le> 2 ^ 23 * 2 powi (E - 150)"
      by (simp only: pow2_23 pow2_24)
    have "real_of_int M \<le> real_of_int (2 ^ 24)" using M(2) by simp
    then have "real_of_int M * 2 powi q \<le> real_of_int (2 ^ 24) * 2 powi q"
      by (simp only: scaled_le_iff)
    also have "\<dots> \<le> 2 ^ 23 * 2 powi (E - 150)" using le by simp
    also have "\<dots> \<le> real_of_int (2 ^ 23 + F) * 2 powi (E - 150)"
      using F(1) by (intro mult_right_mono) simp_all
    finally show ?thesis .
  qed
  with E0 show ?thesis by (simp add: E_def F_def)
qed

lemma pattern_value_le:
  assumes M: "2 ^ 23 \<le> M" "M < 2 ^ 24" and q: "- 149 \<le> q"
    and b: "0 \<le> b" "b \<le> (q + 149) * 2 ^ 23 + M"
  shows "real_of_int (if b div 2 ^ 23 = 0 then b mod 2 ^ 23 else 2 ^ 23 + b mod 2 ^ 23)
        * 2 powi (if b div 2 ^ 23 = 0 then - 149 else b div 2 ^ 23 - 150)
    \<le> real_of_int M * 2 powi q"
proof -
  define E where "E = b div 2 ^ 23"
  define F where "F = b mod 2 ^ 23"
  have F: "0 \<le> F" "F < 2 ^ 23" by (simp_all add: F_def)
  have bEF: "b = E * 2 ^ 23 + F" by (simp add: E_def F_def)
  have E0: "0 \<le> E" using b(1) by (simp add: E_def pos_imp_zdiv_nonneg_iff)
  from b M q F have E: "E \<le> q + 150" unfolding bEF by simp
  have R: "(2::real) ^ 23 * 2 powi q \<le> real_of_int M * 2 powi q"
  proof -
    have "real_of_int (2 ^ 23) \<le> real_of_int M" using M(1) by (simp only: of_int_le_iff)
    then have "real_of_int (2 ^ 23) * 2 powi q \<le> real_of_int M * 2 powi q"
      by (simp only: scaled_le_iff)
    then show ?thesis by simp
  qed
  have Fr: "real_of_int F \<le> 2 ^ 23"
  proof -
    have "real_of_int F \<le> real_of_int (2 ^ 23)" using F(2) by simp
    then show ?thesis by simp
  qed
  consider "E = 0" | "E = q + 150" "E \<noteq> 0" | "0 < E" "E < q + 150" using E E0 by linarith
  then show ?thesis
  proof cases
    case 1
    have "real_of_int F * 2 powi (- 149) \<le> 2 ^ 23 * 2 powi (- 149)"
      using Fr by (simp only: scaled_le_iff)
    also have "\<dots> = 2 powi (- 149 + 23)" by (simp only: pow2_23)
    also have "\<dots> \<le> 2 powi (q + 23)" using q by (intro pow2_le) simp
    also have "\<dots> = 2 ^ 23 * 2 powi q" by (rule pow2_23)
    also note R
    finally show ?thesis using 1 by (simp add: E_def F_def)
  next
    case 2
    with b have "2 ^ 23 + F \<le> M" unfolding bEF by simp
    then have "real_of_int (2 ^ 23 + F) \<le> real_of_int M" by (simp only: of_int_le_iff)
    then have "real_of_int (2 ^ 23 + F) * 2 powi q \<le> real_of_int M * 2 powi q"
      by (simp only: scaled_le_iff)
    with 2 show ?thesis by (simp add: E_def F_def)
  next
    case 3
    have "real_of_int (2 ^ 23 + F) \<le> 2 ^ 24" using Fr by simp
    then have "real_of_int (2 ^ 23 + F) * 2 powi (E - 150) \<le> 2 ^ 24 * 2 powi (E - 150)"
      by (simp only: scaled_le_iff)
    also have "\<dots> = 2 powi (E - 150 + 24)" by (simp only: pow2_24)
    also have "\<dots> \<le> 2 powi (q + 23)" using 3 by (intro pow2_le) simp
    also have "\<dots> = 2 ^ 23 * 2 powi q" by (rule pow2_23)
    also note R
    finally show ?thesis using 3 by (simp add: E_def F_def)
  qed
qed

lemma encode_cases:
  obtains "round_mag m e = 2139095040" "decode (encode (VFin s m e)) = VInf s"
  | "round_mag m e < 2139095040"
    "decode (encode (VFin s m e)) =
       VFin s (if round_mag m e div 2 ^ 23 = 0 then round_mag m e mod 2 ^ 23
               else 2 ^ 23 + round_mag m e mod 2 ^ 23)
         (if round_mag m e div 2 ^ 23 = 0 then - 149 else round_mag m e div 2 ^ 23 - 150)"
proof -
  have w: "encode (VFin s m e) = word_of_int ((if s then 2 ^ 31 else 0) + round_mag m e)"
    by simp
  note d = decode_pattern [OF round_mag_range w]
  from round_mag_range(2) [of m e]
  consider "round_mag m e = 2139095040" | "round_mag m e < 2139095040" by linarith
  then show ?thesis using d that by cases blast+
qed

lemma encode_sign:
  "decode (encode (VFin s m e)) = VInf s
   \<or> (\<exists>m' e'. decode (encode (VFin s m e)) = VFin s m' e' \<and> 0 \<le> m')"
proof (cases rule: encode_cases [of m e s])
  case 1
  then show ?thesis by simp
next
  case 2
  have "0 \<le> round_mag m e mod 2 ^ 23" by simp
  with round_mag_range(1) [of m e] have "0 \<le> (if round_mag m e div 2 ^ 23 = 0 then round_mag m e mod 2 ^ 23
               else 2 ^ 23 + round_mag m e mod 2 ^ 23)" by simp
  with 2 show ?thesis by blast
qed

lemma encode_ge:
  assumes "0 < m" "2 ^ 23 \<le> M" "M < 2 ^ 24" "- 149 \<le> q" "q \<le> 104"
    and "real_of_int M * 2 powi q \<le> real_of_int m * 2 powi e"
  shows "decode (encode (VFin s m e)) = VInf s
   \<or> (\<exists>m' e'. decode (encode (VFin s m e)) = VFin s m' e'
         \<and> real_of_int M * 2 powi q \<le> real_of_int m' * 2 powi e')"
proof (cases rule: encode_cases [of m e s])
  case 1
  then show ?thesis by simp
next
  case 2
  have "(q + 149) * 2 ^ 23 + M \<le> round_mag m e" using assms by (rule round_mag_ge)
  with assms(2-4) have "real_of_int M * 2 powi q
    \<le> real_of_int (if round_mag m e div 2 ^ 23 = 0 then round_mag m e mod 2 ^ 23
                    else 2 ^ 23 + round_mag m e mod 2 ^ 23)
        * 2 powi (if round_mag m e div 2 ^ 23 = 0 then - 149 else round_mag m e div 2 ^ 23 - 150)"
    by (rule pattern_value_ge)
  with 2 show ?thesis by blast
qed

lemma encode_lt:
  assumes "0 < m" "2 ^ 23 \<le> M" "M < 2 ^ 24" "- 149 \<le> q" "q \<le> 104"
    and "real_of_int m * 2 powi e < real_of_int M * 2 powi q"
  shows "\<exists>m' e'. decode (encode (VFin s m e)) = VFin s m' e'
         \<and> real_of_int m' * 2 powi e' \<le> real_of_int M * 2 powi q"
proof -
  have le: "round_mag m e \<le> (q + 149) * 2 ^ 23 + M"
    using assms(1-4,6) by (rule round_mag_le)
  show ?thesis
  proof (cases rule: encode_cases [of m e s])
    case 1
    with le assms(3,5) show ?thesis by simp
  next
    case 2
    from assms(2-4) round_mag_range(1) le
    have "real_of_int (if round_mag m e div 2 ^ 23 = 0 then round_mag m e mod 2 ^ 23
                    else 2 ^ 23 + round_mag m e mod 2 ^ 23)
        * 2 powi (if round_mag m e div 2 ^ 23 = 0 then - 149 else round_mag m e div 2 ^ 23 - 150)
      \<le> real_of_int M * 2 powi q"
      by (rule pattern_value_le)
    with 2 show ?thesis by blast
  qed
qed

lemma encode_zero: "decode (encode (VFin s 0 e)) = VFin s 0 (- 149)"
proof (cases rule: encode_cases [of 0 e s])
  case 1
  then show ?thesis by (simp add: round_mag_def)
next
  case 2
  then show ?thesis by (simp add: round_mag_def)
qed

lemma vmul_value:
  "fval_real (vmul (VFin s m e) (VFin t n f)) = fval_real (VFin s m e) * fval_real (VFin t n f)"
proof -
  have "(2::real) powi (e + f) = 2 powi e * 2 powi f" by (rule power_int_add) simp
  then show ?thesis by simp
qed

lemma vadd_finite:
  obtains s' a g where "vadd (VFin s m e) (VFin t n f) = VFin s' a g" "0 \<le> a"
    "fval_real (VFin s' a g) = fval_real (VFin s m e) + fval_real (VFin t n f)"
proof -
  define g where "g = min e f"
  define a where "a = (if s then - m else m) * 2 ^ nat (e - g)
            + (if t then - n else n) * 2 ^ nat (f - g)"
  have ge: "0 \<le> e - g" "0 \<le> f - g" by (simp_all add: g_def)
  have "real_of_int a * 2 powi g
      = real_of_int (if s then - m else m) * 2 powi (e - g) * 2 powi g
        + real_of_int (if t then - n else n) * 2 powi (f - g) * 2 powi g"
    using ge by (simp add: a_def pow2_nat_powi algebra_simps)
  also have "\<dots> = real_of_int (if s then - m else m) * 2 powi e
        + real_of_int (if t then - n else n) * 2 powi f"
    by (simp only: pow2_shift [symmetric])
  also have "\<dots> = fval_real (VFin s m e) + fval_real (VFin t n f)" by simp
  finally have val: "real_of_int a * 2 powi g = fval_real (VFin s m e) + fval_real (VFin t n f)" .
  show ?thesis
  proof (cases "a = 0")
    case True
    have "vadd (VFin s m e) (VFin t n f) = VFin (s \<and> t) 0 g"
      using True by (simp add: Let_def g_def [symmetric] a_def [symmetric])
    moreover have "fval_real (VFin (s \<and> t) 0 g) = fval_real (VFin s m e) + fval_real (VFin t n f)"
      using val True by simp
    ultimately show ?thesis using that by blast
  next
    case False
    have "vadd (VFin s m e) (VFin t n f) = VFin (a < 0) \<bar>a\<bar> g"
      using False by (simp add: Let_def g_def [symmetric] a_def [symmetric])
    moreover have "fval_real (VFin (a < 0) \<bar>a\<bar> g) = real_of_int a * 2 powi g"
      by simp
    ultimately show ?thesis using that val by (metis abs_ge_zero)
  qed
qed

lemma fval_real_pos:
  assumes "0 < fval_real (VFin s a g)" "0 \<le> a"
  shows "\<not> s" "0 < a" "fval_real (VFin s a g) = real_of_int a * 2 powi g"
proof -
  have p: "0 < (2::real) powi g" by simp
  show "\<not> s"
  proof
    assume s
    then have "fval_real (VFin s a g) = - (real_of_int a * 2 powi g)" by simp
    moreover have "0 \<le> real_of_int a * 2 powi g" using assms(2) by simp
    ultimately show False using assms(1) by linarith
  qed
  then show v: "fval_real (VFin s a g) = real_of_int a * 2 powi g" by simp
  show "0 < a"
  proof (rule ccontr)
    assume "\<not> 0 < a"
    with assms(2) have "a = 0" by simp
    with assms(1) show False by simp
  qed
qed

lemma fval_real_neg:
  assumes "fval_real (VFin s a g) < 0" "0 \<le> a"
  shows "s" "0 < a" "fval_real (VFin s a g) = - (real_of_int a * 2 powi g)"
proof -
  show s: "s"
  proof (rule ccontr)
    assume "\<not> s"
    then have "fval_real (VFin s a g) = real_of_int a * 2 powi g" by simp
    moreover have "0 \<le> real_of_int a * 2 powi g" using assms(2) by simp
    ultimately show False using assms(1) by linarith
  qed
  then show "fval_real (VFin s a g) = - (real_of_int a * 2 powi g)" by simp
  show "0 < a"
  proof (rule ccontr)
    assume "\<not> 0 < a"
    with assms(2) have "a = 0" by simp
    with assms(1) show False by simp
  qed
qed

section \<open>Inputs of large magnitude in the fast build\<close>

text \<open>
  For a finite \<open>x \<ge> 59\<close> the exact \<open>shift + x * log10_2\<close> is at least \<open>shift + 195\<close>, so
  \<open>z\<close> is at least that or infinite, and \<open>n = z - shift\<close> is at least \<open>195\<close> or infinite;
  for \<open>x \<le> -59\<close> the mirror image holds.
\<close>

lemma decode_reduction_consts:
  "decode (hexf 0x18 4 23) = VFin False 12582912 0"
  "decode (hexf 0x1a934f 20 1) = VFin False 13933176 (- 22)"
  by code_simp+

lemma big_n:
  assumes "decode n = VInf s
    \<or> (\<exists>m e. decode n = VFin s m e \<and> real_of_int 12779520 * 2 powi (- 16) \<le> real_of_int m * 2 powi e)"
  shows "fcagt n ScaleBound" "fclez n \<longleftrightarrow> s"
proof -
  from assms consider "decode n = VInf s"
    | m e where "decode n = VFin s m e"
        "real_of_int 12779520 * 2 powi (- 16) \<le> real_of_int m * 2 powi e"
    by blast
  then have "fcagt n ScaleBound \<and> (fclez n \<longleftrightarrow> s)"
  proof cases
    case 1
    then show ?thesis by (simp add: fcagt_def fclez_def decode_bounds)
  next
    case 2
    have "real_of_int 12582912 * 2 powi (- 16) < real_of_int 12779520 * 2 powi (- 16)"
      by (simp only: scaled_less_iff)
    from this 2(2) have gt: "real_of_int 12582912 * 2 powi (- 16) < real_of_int m * 2 powi e"
      by (rule less_le_trans)
    have "0 < real_of_int 12582912 * (2::real) powi (- 16)" by simp
    from this gt have "0 < real_of_int m * 2 powi e" by (rule less_trans)
    then have "m \<noteq> 0" by auto
    with gt show ?thesis
      by (simp add: fcagt_def fclez_def 2(1) decode_bounds vabs_gt_fin del: vabs_gt.simps)
  qed
  then show "fcagt n ScaleBound" "fclez n \<longleftrightarrow> s" by simp_all
qed

lemma stage2_pos:
  assumes "decode z = VInf False
    \<or> (\<exists>m e. decode z = VFin False m e \<and> 12583107 \<le> real_of_int m * 2 powi e)"
  shows "fcagt (fsub z (hexf 0x18 4 23)) ScaleBound" "\<not> fclez (fsub z (hexf 0x18 4 23))"
proof -
  let ?n = "fsub z (hexf 0x18 4 23)"
  have "decode ?n = VInf False
    \<or> (\<exists>m e. decode ?n = VFin False m e
          \<and> real_of_int 12779520 * 2 powi (- 16) \<le> real_of_int m * 2 powi e)"
  proof -
    from assms consider "decode z = VInf False"
      | m e where "decode z = VFin False m e" "12583107 \<le> real_of_int m * 2 powi e"
      by blast
    then show ?thesis
    proof cases
      case 1
      then have "?n = 0x7f800000" by (simp add: fsub_def decode_reduction_consts)
      then show ?thesis by (simp add: decode_consts)
    next
      case 2
      obtain s' a g where v: "vadd (VFin False m e) (VFin True 12582912 0) = VFin s' a g"
        and a: "0 \<le> a"
        and val: "fval_real (VFin s' a g)
                    = fval_real (VFin False m e) + fval_real (VFin True 12582912 0)"
        by (rule vadd_finite)
      from val 2(2) have ge: "195 \<le> fval_real (VFin s' a g)" by simp
      then have "0 < fval_real (VFin s' a g)" by linarith
      note p = fval_real_pos [OF this a]
      have "real_of_int 12779520 * 2 powi (- 16) = (195::real)"
        by (simp add: power_int_minus)
      moreover from ge have "195 \<le> real_of_int a * 2 powi g" by (simp only: p(3))
      ultimately have "real_of_int 12779520 * 2 powi (- 16) \<le> real_of_int a * 2 powi g"
        by (simp only:)
      then have "decode (encode (VFin False a g)) = VInf False
        \<or> (\<exists>m' e'. decode (encode (VFin False a g)) = VFin False m' e'
              \<and> real_of_int 12779520 * 2 powi (- 16) \<le> real_of_int m' * 2 powi e')"
        using p(2) by (intro encode_ge) simp_all
      moreover have "?n = encode (VFin s' a g)"
        by (simp only: fsub_def 2(1) decode_reduction_consts vneg.simps not_False_eq_True v)
      then have "?n = encode (VFin False a g)" using p(1) by simp
      ultimately show ?thesis by simp
    qed
  qed
  from big_n [OF this] show "fcagt ?n ScaleBound" "\<not> fclez ?n" by simp_all
qed

lemma stage2_neg:
  assumes "decode z = VInf True
    \<or> (\<exists>s m e. decode z = VFin s m e \<and> fval_real (VFin s m e) \<le> 12582717)"
  shows "fcagt (fsub z (hexf 0x18 4 23)) ScaleBound" "fclez (fsub z (hexf 0x18 4 23))"
proof -
  let ?n = "fsub z (hexf 0x18 4 23)"
  have "decode ?n = VInf True
    \<or> (\<exists>m e. decode ?n = VFin True m e
          \<and> real_of_int 12779520 * 2 powi (- 16) \<le> real_of_int m * 2 powi e)"
  proof -
    from assms consider "decode z = VInf True"
      | s m e where "decode z = VFin s m e" "fval_real (VFin s m e) \<le> 12582717"
      by blast
    then show ?thesis
    proof cases
      case 1
      then have "?n = 0xff800000" by (simp add: fsub_def decode_reduction_consts)
      then show ?thesis by (simp add: decode_consts)
    next
      case 2
      obtain s' a g where v: "vadd (VFin s m e) (VFin True 12582912 0) = VFin s' a g"
        and a: "0 \<le> a"
        and val: "fval_real (VFin s' a g)
                    = fval_real (VFin s m e) + fval_real (VFin True 12582912 0)"
        by (rule vadd_finite)
      from val 2(2) have le: "fval_real (VFin s' a g) \<le> - 195" by simp
      then have "fval_real (VFin s' a g) < 0" by linarith
      note p = fval_real_neg [OF this a]
      have "real_of_int 12779520 * 2 powi (- 16) = (195::real)"
        by (simp add: power_int_minus)
      moreover from le have "195 \<le> real_of_int a * 2 powi g" by (simp only: p(3))
      ultimately have "real_of_int 12779520 * 2 powi (- 16) \<le> real_of_int a * 2 powi g"
        by (simp only:)
      then have "decode (encode (VFin True a g)) = VInf True
        \<or> (\<exists>m' e'. decode (encode (VFin True a g)) = VFin True m' e'
              \<and> real_of_int 12779520 * 2 powi (- 16) \<le> real_of_int m' * 2 powi e')"
        using p(2) by (intro encode_ge) simp_all
      moreover have "?n = encode (VFin s' a g)"
        by (simp only: fsub_def 2(1) decode_reduction_consts vneg.simps not_False_eq_True v)
      then have "?n = encode (VFin True a g)" using p(1) by simp
      ultimately show ?thesis by simp
    qed
  qed
  from big_n [OF this] show "fcagt ?n ScaleBound" "fclez ?n" by simp_all
qed

lemma lane_z_alt:
  "decode x = VFin sx mx ex \<Longrightarrow>
     lane_z x = encode (vadd (VFin False 12582912 0) (VFin sx (mx * 13933176) (ex + - 22)))"
  by (simp add: lane_z_def ffma_def decode_reduction_consts)

lemma product_value:
  "fval_real (VFin sx (mx * 13933176) (ex + - 22)) = fval_real (VFin sx mx ex) * (13933176 / 2 ^ 22)"
proof -
  have "(2::real) powi (ex + - 22) = 2 powi ex * 2 powi (- 22)"
    by (rule power_int_add) simp
  then show ?thesis by (simp add: power_int_minus field_simps)
qed

lemma stage1_pos:
  assumes fin: "is_finite x" and big: "59 \<le> valof x"
  shows "decode (lane_z x) = VInf False
    \<or> (\<exists>m e. decode (lane_z x) = VFin False m e \<and> 12583107 \<le> real_of_int m * 2 powi e)"
proof -
  from fin obtain sx mx ex where dx: "decode x = VFin sx mx ex"
    using decode_finite by blast
  have vx: "valof x = fval_real (VFin sx mx ex)" by (simp add: valof_def dx)
  obtain s' a g
    where v: "vadd (VFin False 12582912 0) (VFin sx (mx * 13933176) (ex + - 22)) = VFin s' a g"
      and a: "0 \<le> a"
      and val: "fval_real (VFin s' a g) = fval_real (VFin False 12582912 0)
                  + fval_real (VFin sx (mx * 13933176) (ex + - 22))"
    by (rule vadd_finite)
  have "59 * (13933176 / 2 ^ 22) \<le> valof x * (13933176 / 2 ^ 22)"
    using big by (intro mult_right_mono) simp_all
  then have "195 \<le> valof x * (13933176 / 2 ^ 22)" by simp
  with val have ge: "12583107 \<le> fval_real (VFin s' a g)"
    by (simp only: product_value vx [symmetric]) simp
  then have "0 < fval_real (VFin s' a g)" by linarith
  note p = fval_real_pos [OF this a]
  from ge have "real_of_int 12583107 * 2 powi 0 \<le> real_of_int a * 2 powi g"
    by (simp only: p(3)) simp
  then have "decode (encode (VFin False a g)) = VInf False
    \<or> (\<exists>m' e'. decode (encode (VFin False a g)) = VFin False m' e'
          \<and> real_of_int 12583107 * 2 powi 0 \<le> real_of_int m' * 2 powi e')"
    using p(2) by (intro encode_ge) simp_all
  moreover have "lane_z x = encode (VFin s' a g)"
    by (simp only: lane_z_alt [OF dx] v)
  with p(1) have "lane_z x = encode (VFin False a g)" by simp
  ultimately show ?thesis by simp
qed

lemma stage1_neg:
  assumes fin: "is_finite x" and big: "valof x \<le> - 59"
  shows "decode (lane_z x) = VInf True
    \<or> (\<exists>s m e. decode (lane_z x) = VFin s m e \<and> fval_real (VFin s m e) \<le> 12582717)"
proof -
  from fin obtain sx mx ex where dx: "decode x = VFin sx mx ex"
    using decode_finite by blast
  have vx: "valof x = fval_real (VFin sx mx ex)" by (simp add: valof_def dx)
  obtain s' a g
    where v: "vadd (VFin False 12582912 0) (VFin sx (mx * 13933176) (ex + - 22)) = VFin s' a g"
      and a: "0 \<le> a"
      and val: "fval_real (VFin s' a g) = fval_real (VFin False 12582912 0)
                  + fval_real (VFin sx (mx * 13933176) (ex + - 22))"
    by (rule vadd_finite)
  have z: "lane_z x = encode (VFin s' a g)" by (simp only: lane_z_alt [OF dx] v)
  have "valof x * (13933176 / 2 ^ 22) \<le> - 59 * (13933176 / 2 ^ 22)"
    using big by (intro mult_right_mono) simp_all
  then have "valof x * (13933176 / 2 ^ 22) < - 195" by simp
  with val have lt: "fval_real (VFin s' a g) < 12582717"
    by (simp only: product_value vx [symmetric]) simp
  consider "a = 0" | "0 < a" "s'" | "0 < a" "\<not> s'" using a by linarith
  then show ?thesis
  proof cases
    case 1
    then have "decode (lane_z x) = VFin s' 0 (- 149)" by (simp only: z encode_zero)
    moreover have "fval_real (VFin s' 0 (- 149)) \<le> 12582717" by simp
    ultimately show ?thesis by blast
  next
    case 2
    from encode_sign [of True a g]
    consider "decode (lane_z x) = VInf True"
      | m' e' where "decode (lane_z x) = VFin True m' e'" "0 \<le> m'"
      using 2(2) by (auto simp: z)
    then show ?thesis
    proof cases
      case 1
      then show ?thesis by blast
    next
      case 2
      then have "fval_real (VFin True m' e') \<le> 0" by simp
      then have "fval_real (VFin True m' e') \<le> 12582717" by linarith
      with 2(1) show ?thesis by blast
    qed
  next
    case 3
    from lt 3(2) have "real_of_int a * 2 powi g < real_of_int 12582717 * 2 powi 0" by simp
    then have "\<exists>m' e'. decode (encode (VFin False a g)) = VFin False m' e'
         \<and> real_of_int m' * 2 powi e' \<le> real_of_int 12582717 * 2 powi 0"
      using 3(1) by (intro encode_lt) simp_all
    then obtain m' e' where "decode (encode (VFin False a g)) = VFin False m' e'"
      "real_of_int m' * 2 powi e' \<le> real_of_int 12582717 * 2 powi 0" by blast
    then have "decode (lane_z x) = VFin False m' e'" "fval_real (VFin False m' e') \<le> 12582717"
      using 3(2) by (simp_all add: z)
    then show ?thesis by blast
  qed
qed

lemma large_inputs:
  "is_finite x \<Longrightarrow> 59 \<le> valof x \<Longrightarrow> lane_cmp2 x \<and> lane_fast x = 0x7f800000"
  "is_finite x \<Longrightarrow> valof x \<le> - 59 \<Longrightarrow> lane_cmp2 x \<and> lane_fast x = 0"
proof -
  show "lane_cmp2 x \<and> lane_fast x = 0x7f800000" if "is_finite x" "59 \<le> valof x"
  proof -
    note s = stage2_pos [OF stage1_pos [OF that]]
    from s have "lane_cmp2 x" "\<not> fclez (lane_n x)"
      by (simp_all add: lane_cmp2_def lane_n_def)
    then show ?thesis by (simp add: lane_fast_def lane_r2_def r2_cases)
  qed
  show "lane_cmp2 x \<and> lane_fast x = 0" if "is_finite x" "valof x \<le> - 59"
  proof -
    note s = stage2_neg [OF stage1_neg [OF that]]
    from s have "lane_cmp2 x" "fclez (lane_n x)"
      by (simp_all add: lane_cmp2_def lane_n_def)
    then show ?thesis by (simp add: lane_fast_def lane_r2_def r2_cases)
  qed
qed

section \<open>Rounding and powers of two\<close>

text \<open>
  The rounded magnitude does not depend on how the exact number is written
  (\<open>m * 2^c\<close> at exponent \<open>e\<close>, or \<open>m\<close> at exponent \<open>e + c\<close>), and as long as a number
  and its multiple by \<open>2^d\<close> are at least \<open>2^-126\<close>, rounding commutes with the
  multiplication: the rounded multiple has the same significand, its exponent is \<open>d\<close>
  higher, or it is infinite. The exact \<open>s2 + poly * s2\<close> for a power of two \<open>s2 = 2^j\<close>
  is the exact \<open>1 + poly\<close> with its exponent raised by \<open>j\<close>; a nonzero \<open>1 + poly\<close> is at
  least \<open>2^-25\<close> in magnitude and rounds to a finite number. So the \<open>r1\<close> of the handler
  is the rounding of \<open>2^(j + J) * fl (1 + poly)\<close> when \<open>s2 = 2^j\<close> and \<open>s1 = 2^J\<close> are the
  factors of the routine.
\<close>

lemma rne_shift_exact: "rne_shift (m * 2 ^ k) k = m"
proof (cases "k = 0")
  case True
  then show ?thesis by (simp add: rne_shift_def)
next
  case False
  then have "(0::int) < 2 ^ (k - 1)" by simp
  then show ?thesis using False by (simp add: rne_shift_def Let_def)
qed

lemma rne_shift_scale: "rne_shift (m * 2 ^ c) (k + c) = rne_shift m k"
proof (cases "k = 0")
  case True
  then show ?thesis by (simp add: rne_shift_exact) (simp add: rne_shift_def)
next
  case False
  have q: "(m * 2 ^ c) div 2 ^ (k + c) = m div 2 ^ k"
    by (simp add: power_add)
  have r: "(m * 2 ^ c) mod 2 ^ (k + c) = (m mod 2 ^ k) * 2 ^ c"
    by (simp add: power_add mult_mod_left)
  have h: "(2::int) ^ (k + c - 1) = 2 ^ (k - 1) * 2 ^ c"
    using False by (simp add: power_add [symmetric])
  have p: "(0::int) < 2 ^ c" by simp
  show ?thesis
    using False unfolding rne_shift_def Let_def q r h
    by (simp add: mult_less_cancel_right_pos [OF p])
qed

lemma round_mag_repr:
  assumes "0 < m"
  shows "round_mag (m * 2 ^ c) e = round_mag m (e + int c)"
proof -
  define qe where "qe = max (bitlen m - 1 + (e + int c) - 23) (- 149)"
  have m2: "0 < m * 2 ^ c" using assms by simp
  have qe2: "qe = max (bitlen (m * 2 ^ c) - 1 + e - 23) (- 149)"
    using assms by (simp add: qe_def algebra_simps)
  define mant1 where
    "mant1 = (if qe \<le> e then m * 2 ^ c * 2 ^ nat (e - qe) else rne_shift (m * 2 ^ c) (nat (qe - e)))"
  define mant2 where
    "mant2 = (if qe \<le> e + int c then m * 2 ^ nat (e + int c - qe)
              else rne_shift m (nat (qe - (e + int c))))"
  have "mant1 = mant2"
  proof -
    consider "qe \<le> e" | "e < qe" "qe \<le> e + int c" | "e + int c < qe" by linarith
    then show ?thesis
    proof cases
      case 1
      then have "nat (e + int c - qe) = nat (e - qe) + c" by simp
      with 1 show ?thesis by (simp add: mant1_def mant2_def power_add mult_ac)
    next
      case 2
      define k where "k = nat (qe - e)"
      have kc: "k \<le> c" and n: "nat (e + int c - qe) = c - k" using 2 by (simp_all add: k_def)
      have "m * 2 ^ c = (m * 2 ^ (c - k)) * 2 ^ k"
        using kc by (simp add: power_add [symmetric])
      then have "rne_shift (m * 2 ^ c) k = m * 2 ^ (c - k)" by (simp only: rne_shift_exact)
      with 2 show ?thesis by (simp add: mant1_def mant2_def k_def [symmetric] n)
    next
      case 3
      then have "nat (qe - e) = nat (qe - (e + int c)) + c" by simp
      with 3 show ?thesis by (simp add: mant1_def mant2_def rne_shift_scale)
    qed
  qed
  moreover have "round_mag (m * 2 ^ c) e = min 2139095040 ((qe + 149) * 2 ^ 23 + mant1)"
    by (rule round_mag_pos [OF m2 qe2 mant1_def])
  moreover have "round_mag m (e + int c) = min 2139095040 ((qe + 149) * 2 ^ 23 + mant2)"
    by (rule round_mag_pos [OF assms qe_def mant2_def])
  ultimately show ?thesis by simp
qed

lemma round_mag_scale:
  assumes m: "0 < m" and q: "- 149 \<le> bitlen m - 1 + e - 23"
    and qd: "- 149 \<le> bitlen m - 1 + e - 23 + d"
  shows "\<exists>B. round_mag m e = min 2139095040 B
           \<and> round_mag m (e + d) = min 2139095040 (B + d * 2 ^ 23)
           \<and> (bitlen m + e + 126) * 2 ^ 23 \<le> B"
proof -
  define q0 where "q0 = bitlen m - 1 + e - 23"
  define mant where
    "mant = (if q0 \<le> e then m * 2 ^ nat (e - q0) else rne_shift m (nat (q0 - e)))"
  have q1: "q0 = max (bitlen m - 1 + e - 23) (- 149)" using q by (simp add: q0_def)
  have q2: "q0 + d = max (bitlen m - 1 + (e + d) - 23) (- 149)" using qd by (simp add: q0_def)
  have mant2: "mant = (if q0 + d \<le> e + d then m * 2 ^ nat (e + d - (q0 + d))
                        else rne_shift m (nat (q0 + d - (e + d))))"
    by (simp add: mant_def)
  have r1: "round_mag m e = min 2139095040 ((q0 + 149) * 2 ^ 23 + mant)"
    by (rule round_mag_pos [OF m q1 mant_def])
  have r2: "round_mag m (e + d) = min 2139095040 ((q0 + d + 149) * 2 ^ 23 + mant)"
    by (rule round_mag_pos [OF m q2 mant2])
  have "2 powi (bitlen m - 1 + e) \<le> real_of_int m * 2 powi e" by (rule binade(1) [OF m])
  moreover have "bitlen m - 1 + e = q0 + 23" by (simp add: q0_def)
  then have "(2::real) powi (bitlen m - 1 + e) = 2 ^ 23 * 2 powi q0"
    by (simp only: pow2_23)
  ultimately have "real_of_int (2 ^ 23) * 2 powi q0 \<le> real_of_int m * 2 powi e" by simp
  then have "2 ^ 23 \<le> mant" by (rule mant_bounds(1) [OF m mant_def])
  then have "(bitlen m + e + 126) * 2 ^ 23 \<le> (q0 + 149) * 2 ^ 23 + mant"
    by (simp add: q0_def algebra_simps)
  moreover have "(q0 + d + 149) * 2 ^ 23 + mant = (q0 + 149) * 2 ^ 23 + mant + d * 2 ^ 23"
    by (simp add: algebra_simps)
  ultimately show ?thesis using r1 r2 by (intro exI [of _ "(q0 + 149) * 2 ^ 23 + mant"]) simp
qed

lemma encode_finite:
  "round_mag m e < 2139095040 \<Longrightarrow>
     decode (encode (VFin s m e)) =
       VFin s (if round_mag m e div 2 ^ 23 = 0 then round_mag m e mod 2 ^ 23
               else 2 ^ 23 + round_mag m e mod 2 ^ 23)
         (if round_mag m e div 2 ^ 23 = 0 then - 149 else round_mag m e div 2 ^ 23 - 150)"
  by (cases rule: encode_cases [of m e s]) simp_all

lemma encode_inf:
  "round_mag m e = 2139095040 \<Longrightarrow> decode (encode (VFin s m e)) = VInf s"
  by (cases rule: encode_cases [of m e s]) simp_all

lemma encode_scaled:
  assumes m: "0 < m" and q: "- 149 \<le> bitlen m - 1 + e - 23"
    and qd: "- 149 \<le> bitlen m - 1 + e - 23 + d"
    and t: "decode (encode (VFin s m e)) = VFin s' M q'"
  shows "s' = s" "2 ^ 23 \<le> M" "M < 2 ^ 24" "- 149 \<le> q'" "q' \<le> 104"
    and "q' + d \<le> 104 \<Longrightarrow> decode (encode (VFin s m (e + d))) = VFin s M (q' + d)"
    and "104 < q' + d \<Longrightarrow> decode (encode (VFin s m (e + d))) = VInf s"
proof -
  from round_mag_scale [OF m q qd] obtain B where
    B: "round_mag m e = min 2139095040 B"
      "round_mag m (e + d) = min 2139095040 (B + d * 2 ^ 23)"
      "(bitlen m + e + 126) * 2 ^ 23 \<le> B"
    by blast
  from q B(3) have lo: "2 ^ 23 \<le> B" by simp
  from qd B(3) have lod: "2 ^ 23 \<le> B + d * 2 ^ 23" by (simp add: algebra_simps)
  have fin: "round_mag m e < 2139095040"
    using t by (cases rule: encode_cases [of m e s]) simp_all
  then have b: "round_mag m e = B" "B < 2139095040" using B(1) by simp_all
  from lo have d1: "B div 2 ^ 23 \<noteq> 0" by simp
  define E where "E = B div 2 ^ 23"
  define F where "F = B mod 2 ^ 23"
  have E: "1 \<le> E" "E < 255" using lo b(2) by (simp_all add: E_def)
  have F: "0 \<le> F" "F < 2 ^ 23" by (simp_all add: F_def)
  have dt: "decode (encode (VFin s m e)) = VFin s (2 ^ 23 + F) (E - 150)"
    using fin d1 by (cases rule: encode_cases [of m e s]) (simp_all add: b(1) E_def F_def)
  with t have eq: "s' = s" "M = 2 ^ 23 + F" "q' = E - 150" by simp_all
  show "s' = s" by (rule eq)
  show "2 ^ 23 \<le> M" "M < 2 ^ 24" "- 149 \<le> q'" "q' \<le> 104"
    using E F by (simp_all add: eq)
  have split: "(B + d * 2 ^ 23) div 2 ^ 23 = E + d" "(B + d * 2 ^ 23) mod 2 ^ 23 = F"
    by (simp_all add: E_def F_def)
  show "decode (encode (VFin s m (e + d))) = VFin s M (q' + d)" if "q' + d \<le> 104"
  proof -
    have "E + d \<le> 254" using that by (simp add: eq)
    then have "(E + d) * 2 ^ 23 + F < 2139095040" using F by simp
    moreover have "B + d * 2 ^ 23 = (E + d) * 2 ^ 23 + F"
      by (simp add: E_def F_def algebra_simps)
    ultimately have lt: "B + d * 2 ^ 23 < 2139095040" by simp
    then have r: "round_mag m (e + d) = B + d * 2 ^ 23" using B(2) by simp
    from lod have nz: "E + d \<noteq> 0" using split(1) by (simp add: E_def)
    have x: "E + d - 150 = q' + d" by (simp add: eq)
    note ef = encode_finite [of m "e + d" s, unfolded r, OF lt]
    then have "decode (encode (VFin s m (e + d))) = VFin s (2 ^ 23 + F) (E + d - 150)"
      using nz by (simp only: split if_False)
    then show ?thesis by (simp only: x eq(2))
  qed
  show "decode (encode (VFin s m (e + d))) = VInf s" if "104 < q' + d"
  proof -
    have "255 \<le> E + d" using that by (simp add: eq)
    then have "2139095040 \<le> (E + d) * 2 ^ 23 + F" using F by simp
    moreover have "B + d * 2 ^ 23 = (E + d) * 2 ^ 23 + F"
      by (simp add: E_def F_def algebra_simps)
    ultimately have "round_mag m (e + d) = 2139095040" using B(2) by simp
    then show ?thesis by (rule encode_inf)
  qed
qed

lemma decode_ranges:
  assumes "decode w = VFin s m e"
  shows "0 \<le> m" "m < 2 ^ 24" "- 149 \<le> e" "e \<le> 104"
  using assms frac_of_bounds [of w] expo_of_bounds [of w]
  by (auto simp: decode_def split: if_splits)

lemma bitlen_24: "2 ^ 23 \<le> M \<Longrightarrow> M < 2 ^ 24 \<Longrightarrow> bitlen M = 24"
proof -
  assume M: "2 ^ 23 \<le> M" "M < 2 ^ 24"
  then have p: "0 < M" by simp
  from bitlen_bounds [OF p] have b: "2 ^ nat (bitlen M - 1) \<le> M" "M < 2 ^ nat (bitlen M)"
    by simp_all
  from b(1) M(2) have "(2::int) ^ nat (bitlen M - 1) < 2 ^ 24" by simp
  then have "nat (bitlen M - 1) < 24" by (simp only: power_strict_increasing_iff)
  moreover from b(2) M(1) have "(2::int) ^ 23 < 2 ^ nat (bitlen M)" by simp
  then have "23 < nat (bitlen M)" by (simp only: power_strict_increasing_iff)
  ultimately show ?thesis by simp
qed

lemma encode_overflow:
  assumes M: "2 ^ 23 \<le> M" "M < 2 ^ 24" and e: "105 \<le> e"
  shows "encode (VFin s M e) = encode (VInf s)"
proof -
  from M have p: "0 < M" by simp
  have q: "e = max (bitlen M - 1 + e - 23) (- 149)" using e by (simp add: bitlen_24 [OF M])
  have mant: "M = (if e \<le> e then M * 2 ^ nat (e - e) else rne_shift M (nat (e - e)))" by simp
  have "round_mag M e = min 2139095040 ((e + 149) * 2 ^ 23 + M)"
    by (rule round_mag_pos [OF p q mant])
  moreover have "2139095040 \<le> (e + 149) * 2 ^ 23 + M" using e M by simp
  ultimately have "round_mag M e = 2139095040" by simp
  then show ?thesis by simp
qed

lemma encode_repr:
  "0 < m \<Longrightarrow> encode (VFin s (m * 2 ^ c) e) = encode (VFin s m (e + int c))"
  by (simp add: round_mag_repr)

lemma fma_exact:
  assumes w: "w = 2 ^ nat (- min 0 ep) + (if sp then - mp else mp) * 2 ^ nat (ep - min 0 ep)"
  shows "vadd (VFin False (2 ^ 23) a) (vmul (VFin sp mp ep) (VFin False (2 ^ 23) a))
       = (if w = 0 then VFin False 0 (a + min 0 ep)
          else VFin (w < 0) (\<bar>w\<bar> * 2 ^ 23) (a + min 0 ep))"
proof -
  have g: "min a (ep + a) = a + min 0 ep" by simp
  have x: "nat (a - (a + min 0 ep)) = nat (- min 0 ep)"
    "nat (ep + a - (a + min 0 ep)) = nat (ep - min 0 ep)"
    by simp_all
  have av: "(if False then - (2 ^ 23) else 2 ^ 23) * 2 ^ nat (- min 0 ep)
      + (if sp then - (mp * 2 ^ 23) else mp * 2 ^ 23) * 2 ^ nat (ep - min 0 ep) = w * 2 ^ 23"
    by (simp add: w algebra_simps)
  have z: "w * 2 ^ 23 = 0 \<longleftrightarrow> w = 0" "w * 2 ^ 23 < 0 \<longleftrightarrow> w < 0"
    "\<bar>w * 2 ^ 23\<bar> = \<bar>w\<bar> * 2 ^ 23"
    by (simp_all add: abs_mult mult_less_0_iff)
  have vm: "vmul (VFin sp mp ep) (VFin False (2 ^ 23) a) = VFin sp (mp * 2 ^ 23) (ep + a)"
    by simp
  have "vadd (VFin False (2 ^ 23) a) (VFin sp (mp * 2 ^ 23) (ep + a))
      = (if w * 2 ^ 23 = 0 then VFin (False \<and> sp) 0 (a + min 0 ep)
         else VFin (w * 2 ^ 23 < 0) \<bar>w * 2 ^ 23\<bar> (a + min 0 ep))"
    by (simp only: vadd.simps Let_def g x av)
  then show ?thesis by (simp only: vm z simp_thms)
qed

lemma fma_value:
  assumes w: "w = 2 ^ nat (- min 0 ep) + (if sp then - mp else mp) * 2 ^ nat (ep - min 0 ep)"
  shows "real_of_int w * 2 powi (min 0 ep)
       = 1 + real_of_int (if sp then - mp else mp) * 2 powi ep"
proof -
  have a: "(2::real) ^ nat (- min 0 ep) * 2 powi (min 0 ep) = 1"
  proof -
    have "(2::real) ^ nat (- min 0 ep) = 2 powi (- min 0 ep)" by (rule pow2_nat_powi) simp
    then show ?thesis by (simp add: power_int_minus)
  qed
  have b: "(2::real) ^ nat (ep - min 0 ep) * 2 powi (min 0 ep) = 2 powi ep"
  proof -
    have "(2::real) ^ nat (ep - min 0 ep) = 2 powi (ep - min 0 ep)"
      by (rule pow2_nat_powi) simp
    moreover have "(2::real) powi (ep - min 0 ep + min 0 ep) = 2 powi (ep - min 0 ep) * 2 powi (min 0 ep)"
      by (rule power_int_add) simp
    ultimately show ?thesis by simp
  qed
  have "real_of_int w * 2 powi (min 0 ep)
      = 2 ^ nat (- min 0 ep) * 2 powi (min 0 ep)
        + real_of_int (if sp then - mp else mp) * (2 ^ nat (ep - min 0 ep) * 2 powi (min 0 ep))"
    by (simp add: w algebra_simps)
  then show ?thesis by (simp only: a b)
qed

lemma sum_lower:
  assumes w: "w = 2 ^ nat (- min 0 ep) + sm * 2 ^ nat (ep - min 0 ep)" and nz: "w \<noteq> 0"
    and sm: "\<bar>sm\<bar> < 2 ^ 24"
  shows "2 powi (- 25) \<le> real_of_int \<bar>w\<bar> * 2 powi (min 0 ep)"
proof (cases "- 25 \<le> ep")
  case True
  then have "(2::real) powi (- 25) \<le> 2 powi (min 0 ep)" by (intro pow2_le) simp
  moreover from nz have "1 \<le> real_of_int \<bar>w\<bar>" by simp
  then have "2 powi (min 0 ep) \<le> real_of_int \<bar>w\<bar> * 2 powi (min 0 ep)"
    using mult_right_mono [of 1 "real_of_int \<bar>w\<bar>" "2 powi (min 0 ep)"] by simp
  ultimately show ?thesis by (rule order_trans)
next
  case False
  then have g: "min 0 ep = ep" and e: "ep \<le> - 26" by simp_all
  have w': "w = 2 ^ nat (- ep) + sm" using False by (simp add: w)
  have p: "(2::real) ^ nat (- ep) * 2 powi ep = 1"
  proof -
    have "(2::real) ^ nat (- ep) = 2 powi (- ep)" using e by (intro pow2_nat_powi) simp
    then show ?thesis by (simp add: power_int_minus)
  qed
  from e have "(2::real) powi ep \<le> 2 powi (- 26)" by (intro pow2_le)
  then have q: "2 ^ 24 * (2::real) powi ep \<le> 1 / 4" by (simp add: power_int_minus)
  have "2 ^ nat (- ep) - 2 ^ 24 \<le> \<bar>w\<bar>" using sm by (simp add: w')
  then have "real_of_int (2 ^ nat (- ep) - 2 ^ 24) \<le> real_of_int \<bar>w\<bar>" by (simp only: of_int_le_iff)
  then have "real_of_int (2 ^ nat (- ep) - 2 ^ 24) * 2 powi ep \<le> real_of_int \<bar>w\<bar> * 2 powi ep"
    by (intro mult_right_mono) simp_all
  moreover have "real_of_int (2 ^ nat (- ep) - 2 ^ 24) * 2 powi ep
      = 2 ^ nat (- ep) * 2 powi ep - 2 ^ 24 * 2 powi ep"
    by (simp add: algebra_simps)
  ultimately have "1 - 2 ^ 24 * 2 powi ep \<le> real_of_int \<bar>w\<bar> * 2 powi ep"
    by (simp only: p)
  with q have "3 / 4 \<le> real_of_int \<bar>w\<bar> * 2 powi ep" by simp
  moreover have "(2::real) powi (- 25) \<le> 3 / 4" by (simp add: power_int_minus)
  ultimately show ?thesis by (simp only: g)
qed

lemma sum_upper:
  assumes w: "w = 2 ^ nat (- min 0 ep) + (if sp then - mp else mp) * 2 ^ nat (ep - min 0 ep)"
    and mp: "0 \<le> mp" "mp < 2 ^ 24" and ep: "ep \<le> 104"
    and ne: "\<not> (\<not> sp \<and> mp = 2 ^ 24 - 1 \<and> ep = 104)"
  shows "real_of_int \<bar>w\<bar> * 2 powi (min 0 ep) < real_of_int (2 ^ 24 - 1) * 2 powi 104"
proof -
  define T :: real where "T = 2 powi 103"
  have T: "1 \<le> T" "2 powi 104 = 2 * T"
  proof -
    have "(2::real) powi 0 \<le> 2 powi 103" by (intro pow2_le) simp
    then show "1 \<le> T" by (simp add: T_def)
    have "(2::real) powi (1 + 103) = 2 powi 1 * 2 powi 103" by (rule power_int_add) simp
    then show "2 powi 104 = 2 * T" by (simp add: T_def)
  qed
  define x where "x = real_of_int mp * 2 powi ep"
  have x0: "0 \<le> x" using mp by (simp add: x_def)
  have v: "real_of_int w * 2 powi (min 0 ep) = 1 + (if sp then - x else x)"
    using fma_value [OF w] by (simp add: x_def)
  have "\<bar>real_of_int w * 2 powi (min 0 ep)\<bar> = real_of_int \<bar>w\<bar> * 2 powi (min 0 ep)"
    by (simp add: abs_mult)
  then have a: "real_of_int \<bar>w\<bar> * 2 powi (min 0 ep) = \<bar>1 + (if sp then - x else x)\<bar>"
    by (simp only: v)
  have le: "x \<le> real_of_int (2 ^ 24 - 1) * 2 powi 104"
  proof -
    have "real_of_int mp \<le> real_of_int (2 ^ 24 - 1)" using mp by simp
    moreover have "(2::real) powi ep \<le> 2 powi 104" using ep by (intro pow2_le)
    ultimately show ?thesis unfolding x_def by (intro mult_mono) simp_all
  qed
  have big: "2 < real_of_int (2 ^ 24 - 1) * 2 powi 104"
    using T by (simp only: T(2)) simp
  define F where "F = real_of_int (2 ^ 24 - 1) * 2 powi 104"
  note le' = le [folded F_def] and big' = big [folded F_def]
  have "\<bar>1 + (if sp then - x else x)\<bar> < F"
  proof (cases sp)
    case True
    with x0 le' big' show ?thesis by (simp add: abs_less_iff)
  next
    case False
    with ne consider "ep \<le> 103" | "ep = 104" "mp \<le> 2 ^ 24 - 2" using ep mp by fastforce
    then have "x \<le> F - 2"
    proof cases
      case 1
      have "real_of_int mp \<le> 2 ^ 24" using mp by simp
      moreover have "(2::real) powi ep \<le> 2 powi 103" using 1 by (intro pow2_le)
      ultimately have "x \<le> 2 ^ 24 * T" unfolding x_def T_def by (intro mult_mono) simp_all
      moreover have "F = (2 ^ 24 - 1) * (2 * T)" unfolding F_def T(2) by simp
      ultimately show ?thesis using T(1) by simp
    next
      case 2
      have "real_of_int mp \<le> 2 ^ 24 - 2" using 2(2) by simp
      then have "x \<le> (2 ^ 24 - 2) * (2 * T)"
        unfolding x_def 2(1) T(2) using T(1) by (intro mult_right_mono) simp_all
      moreover have "F = (2 ^ 24 - 1) * (2 * T)" unfolding F_def T(2) by simp
      ultimately show ?thesis using T(1) by simp
    qed
    with False x0 show ?thesis by simp
  qed
  then show ?thesis by (simp only: a F_def)
qed

lemma scaled_sum_rounding:
  assumes w: "w = 2 ^ nat (- min 0 ep) + (if sp then - mp else mp) * 2 ^ nat (ep - min 0 ep)"
    and nz: "w \<noteq> 0" and mp: "0 \<le> mp" "mp < 2 ^ 24" and ep: "ep \<le> 104" and j: "- 67 \<le> j"
  shows "\<exists>M q. decode (encode (VFin (w < 0) (\<bar>w\<bar> * 2 ^ 23) (- 23 + min 0 ep))) = VFin (w < 0) M q
      \<and> 2 ^ 23 \<le> M \<and> M < 2 ^ 24 \<and> - 149 \<le> q \<and> q \<le> 104
      \<and> (q + j \<le> 104 \<longrightarrow>
           decode (encode (VFin (w < 0) (\<bar>w\<bar> * 2 ^ 23) (j - 23 + min 0 ep))) = VFin (w < 0) M (q + j))
      \<and> (104 < q + j \<longrightarrow>
           decode (encode (VFin (w < 0) (\<bar>w\<bar> * 2 ^ 23) (j - 23 + min 0 ep))) = VInf (w < 0))"
proof -
  define m where "m = \<bar>w\<bar> * 2 ^ 23"
  define e0 where "e0 = - 23 + min 0 ep"
  have m: "0 < m" using nz by (simp add: m_def)
  have val: "real_of_int m * 2 powi e0 = real_of_int \<bar>w\<bar> * 2 powi (min 0 ep)"
  proof -
    have "min 0 ep = e0 + 23" by (simp add: e0_def)
    then have "(2::real) powi (min 0 ep) = 2 ^ 23 * 2 powi e0" by (simp only: pow2_23)
    then show ?thesis by (simp add: m_def)
  qed
  have sm: "\<bar>if sp then - mp else mp\<bar> < 2 ^ 24" using mp by simp
  have lo: "2 powi (- 25) \<le> real_of_int m * 2 powi e0"
    unfolding val by (rule sum_lower [OF w nz sm])
  have "real_of_int m * 2 powi e0 < 2 powi (bitlen m + e0)" by (rule binade(2) [OF m])
  with lo have "(2::real) powi (- 25) < 2 powi (bitlen m + e0)" by (rule le_less_trans)
  then have b: "- 25 < bitlen m + e0" by (rule pow2_less_imp)
  then have q: "- 149 \<le> bitlen m - 1 + e0 - 23"
    and qd: "- 149 \<le> bitlen m - 1 + e0 - 23 + j"
    using j by simp_all
  have fin: "round_mag m e0 < 2139095040"
  proof (cases "\<not> sp \<and> mp = 2 ^ 24 - 1 \<and> ep = 104")
    case True
    then have "w = 1 + 16777215 * 2 ^ 104" by (simp add: w)
    with True have "m = (1 + 16777215 * 2 ^ 104) * 2 ^ 23" "e0 = - 23"
      by (simp_all add: m_def e0_def)
    moreover have "round_mag ((1 + 16777215 * 2 ^ 104) * 2 ^ 23) (- 23) < 2139095040"
      by code_simp
    ultimately show ?thesis by (simp only:)
  next
    case False
    have "real_of_int m * 2 powi e0 < real_of_int (2 ^ 24 - 1) * 2 powi 104"
      unfolding val by (rule sum_upper [OF w mp ep False])
    then have "round_mag m e0 \<le> (104 + 149) * 2 ^ 23 + (2 ^ 24 - 1)"
      by (intro round_mag_le [OF m]) simp_all
    then show ?thesis by simp
  qed
  from encode_finite [OF fin, of "w < 0"] obtain M q' where
    t: "decode (encode (VFin (w < 0) m e0)) = VFin (w < 0) M q'"
    by blast
  note S = encode_scaled [OF m q qd t]
  have e: "e0 + j = j - 23 + min 0 ep" by (simp add: e0_def)
  note S67 = S(6,7) [unfolded e]
  from S67 have u: "q' + j \<le> 104 \<longrightarrow>
        decode (encode (VFin (w < 0) m (j - 23 + min 0 ep))) = VFin (w < 0) M (q' + j)"
    "104 < q' + j \<longrightarrow> decode (encode (VFin (w < 0) m (j - 23 + min 0 ep))) = VInf (w < 0)"
    by blast+
  from t S(2-5) u show ?thesis unfolding m_def e0_def by blast
qed

lemma decode_one: "decode (hexf 1 0 0) = VFin False (2 ^ 23) (- 23)"
  by code_simp

lemma r1_rounding_finite:
  assumes P: "decode p = VFin sp mp ep"
    and S2: "decode s2 = VFin False (2 ^ 23) (j - 23)"
    and S1: "decode s1 = VFin False (2 ^ 23) (J - 23)"
    and rng: "J = 127 \<and> 0 \<le> j \<and> j \<le> 65 \<or> J = - 125 \<and> - 67 \<le> j \<and> j \<le> - 2"
  shows "fmul (ffma s2 p s2) s1
       = encode (vmul (decode (ffma (hexf 1 0 0) p (hexf 1 0 0))) (VFin False 1 (j + J)))"
proof -
  define w where "w = 2 ^ nat (- min 0 ep) + (if sp then - mp else mp) * 2 ^ nat (ep - min 0 ep)"
  note R = decode_ranges [OF P]
  from rng have jlow: "- 67 \<le> j" by auto
  have t: "ffma (hexf 1 0 0) p (hexf 1 0 0)
      = encode (if w = 0 then VFin False 0 (- 23 + min 0 ep)
                else VFin (w < 0) (\<bar>w\<bar> * 2 ^ 23) (- 23 + min 0 ep))"
    by (simp only: ffma_def P decode_one fma_exact [OF w_def])
  have u: "ffma s2 p s2
      = encode (if w = 0 then VFin False 0 (j - 23 + min 0 ep)
                else VFin (w < 0) (\<bar>w\<bar> * 2 ^ 23) (j - 23 + min 0 ep))"
    by (simp only: ffma_def P S2 fma_exact [OF w_def])
  show ?thesis
  proof (cases "w = 0")
    case True
    have dt: "decode (ffma (hexf 1 0 0) p (hexf 1 0 0)) = VFin False 0 (- 149)"
      by (simp only: t True simp_thms if_True encode_zero)
    have du: "decode (ffma s2 p s2) = VFin False 0 (- 149)"
      by (simp only: u True simp_thms if_True encode_zero)
    show ?thesis by (simp add: fmul_def dt du S1 round_mag_def)
  next
    case False
    from scaled_sum_rounding [OF w_def False R(1,2,4) jlow] obtain M q where
      X: "decode (encode (VFin (w < 0) (\<bar>w\<bar> * 2 ^ 23) (- 23 + min 0 ep))) = VFin (w < 0) M q"
      and M: "2 ^ 23 \<le> M" "M < 2 ^ 24" and q: "- 149 \<le> q" "q \<le> 104"
      and U1: "q + j \<le> 104 \<longrightarrow>
           decode (encode (VFin (w < 0) (\<bar>w\<bar> * 2 ^ 23) (j - 23 + min 0 ep))) = VFin (w < 0) M (q + j)"
      and U2: "104 < q + j \<longrightarrow>
           decode (encode (VFin (w < 0) (\<bar>w\<bar> * 2 ^ 23) (j - 23 + min 0 ep))) = VInf (w < 0)"
      by blast
    from M have Mp: "0 < M" by simp
    have dt: "decode (ffma (hexf 1 0 0) p (hexf 1 0 0)) = VFin (w < 0) M q"
      by (simp only: t False if_False X)
    have T: "vmul (decode (ffma (hexf 1 0 0) p (hexf 1 0 0))) (VFin False 1 (j + J))
        = VFin (w < 0) M (q + (j + J))"
      by (simp add: dt)
    show ?thesis
    proof (cases "q + j \<le> 104")
      case True
      with U1 have du: "decode (ffma s2 p s2) = VFin (w < 0) M (q + j)"
        by (simp only: u False if_False)
      have "vmul (decode (ffma s2 p s2)) (decode s1) = VFin (w < 0) (M * 2 ^ 23) (q + j + (J - 23))"
        by (simp add: du S1)
      then have "fmul (ffma s2 p s2) s1 = encode (VFin (w < 0) (M * 2 ^ 23) (q + j + (J - 23)))"
        by (simp only: fmul_def)
      also have "\<dots> = encode (VFin (w < 0) M (q + j + (J - 23) + int 23))"
        by (rule encode_repr [OF Mp])
      also have "q + j + (J - 23) + int 23 = q + (j + J)" by simp
      finally show ?thesis by (simp only: T)
    next
      case False
      with U2 have du: "decode (ffma s2 p s2) = VInf (w < 0)"
        by (simp only: u \<open>w \<noteq> 0\<close> if_False)
      from False rng q have "J = 127" and big: "105 \<le> q + (j + J)" by auto
      have "vmul (decode (ffma s2 p s2)) (decode s1) = VInf (w < 0)"
        by (simp add: du S1)
      then have "fmul (ffma s2 p s2) s1 = encode (VInf (w < 0))"
        by (simp only: fmul_def)
      also have "\<dots> = encode (VFin (w < 0) M (q + (j + J)))"
        by (rule encode_overflow [OF M big, symmetric])
      finally show ?thesis by (simp only: T)
    qed
  qed
qed

lemma r1_rounding:
  assumes S2: "decode s2 = VFin False (2 ^ 23) (j - 23)"
    and S1: "decode s1 = VFin False (2 ^ 23) (J - 23)"
    and rng: "J = 127 \<and> 0 \<le> j \<and> j \<le> 65 \<or> J = - 125 \<and> - 67 \<le> j \<and> j \<le> - 2"
  shows "fmul (ffma s2 p s2) s1
       = encode (vmul (decode (ffma (hexf 1 0 0) p (hexf 1 0 0))) (VFin False 1 (j + J)))"
proof (cases "decode p")
  case VNaN
  have d: "decode 0x7fc00000 = VNaN" by code_simp
  show ?thesis by (simp add: fmul_def ffma_def VNaN S1 S2 decode_one d)
next
  case (VInf s)
  have d: "decode 0x7f800000 = VInf False" "decode 0xff800000 = VInf True" by code_simp+
  show ?thesis by (cases s) (simp_all add: fmul_def ffma_def VInf S1 S2 decode_one d)
next
  case (VFin sp mp ep)
  then show ?thesis by (rule r1_rounding_finite [OF _ S2 S1 rng])
qed

lemma decode_exponent_word:
  assumes u: "uint w = E * 2 ^ 23" and E: "0 < E" "E < 255"
  shows "decode w = VFin False (2 ^ 23) (E - 150)"
proof -
  from E have f: "expo_of w = E" "frac_of w = 0" "\<not> sign_of w"
    using fields_of_exponent_word [OF u] by simp_all
  with E show ?thesis by (simp add: decode_def)
qed

lemma abs_value_finite:
  assumes "decode n = VFin s m e"
  shows "\<bar>valof n\<bar> = real_of_int m * 2 powi e"
  using decode_mant_nonneg [OF assms] by (simp add: valof_def assms abs_mult)

lemma fcagt_bounds:
  assumes fin: "is_finite n"
  shows "fcagt n SpecialBound \<longleftrightarrow> 126 < \<bar>valof n\<bar>"
    and "fcagt n ScaleBound \<longleftrightarrow> 192 < \<bar>valof n\<bar>"
proof -
  from fin obtain s m e where d: "decode n = VFin s m e" using decode_finite by blast
  note a = abs_value_finite [OF d]
  have "fcagt n SpecialBound \<longleftrightarrow> real_of_int 16515072 * 2 powi (- 17) < real_of_int m * 2 powi e"
    by (simp only: fcagt_def d decode_bounds vabs_gt_fin)
  then show "fcagt n SpecialBound \<longleftrightarrow> 126 < \<bar>valof n\<bar>"
    by (simp add: a power_int_minus)
  have "fcagt n ScaleBound \<longleftrightarrow> real_of_int 12582912 * 2 powi (- 16) < real_of_int m * 2 powi e"
    by (simp only: fcagt_def d decode_bounds vabs_gt_fin)
  then show "fcagt n ScaleBound \<longleftrightarrow> 192 < \<bar>valof n\<bar>"
    by (simp add: a power_int_minus)
qed

lemma factors:
  assumes fin: "is_finite n" and val: "valof n = of_int k"
    and lo: "126 < \<bar>k\<bar>" and hi: "\<bar>k\<bar> \<le> 192"
    and e: "e = push_bit 23 (word_of_int k)"
  shows "sc_b n = (if k \<le> 0 then 0x82000000 else 0)"
    and "is_normal (sc_s1 n) \<and> is_normal (sc_s2 n e)
      \<and> valof (sc_s1 n) * valof (sc_s2 n e) = 2 powi k"
    and "\<exists>j J. decode (sc_s2 n e) = VFin False (2 ^ 23) (j - 23)
      \<and> decode (sc_s1 n) = VFin False (2 ^ 23) (J - 23) \<and> j + J = k
      \<and> (J = 127 \<and> 0 \<le> j \<and> j \<le> 65 \<or> J = - 125 \<and> - 67 \<le> j \<and> j \<le> - 2)"
proof -
  have le: "fclez n \<longleftrightarrow> k \<le> 0"
    using fin val by (simp add: fclez_finite)
  show b: "sc_b n = (if k \<le> 0 then 0x82000000 else 0)"
    by (simp add: sc_b_cases le)
  have d1: "decode 0x7f000000 = VFin False (2 ^ 23) (127 - 23)"
    "decode 0x01000000 = VFin False (2 ^ 23) (- 125 - 23)"
    by code_simp+
  have "(is_normal (sc_s1 n) \<and> is_normal (sc_s2 n e)
      \<and> valof (sc_s1 n) * valof (sc_s2 n e) = 2 powi k)
    \<and> (\<exists>j J. decode (sc_s2 n e) = VFin False (2 ^ 23) (j - 23)
      \<and> decode (sc_s1 n) = VFin False (2 ^ 23) (J - 23) \<and> j + J = k
      \<and> (J = 127 \<and> 0 \<le> j \<and> j \<le> 65 \<or> J = - 125 \<and> - 67 \<le> j \<and> j \<le> - 2))"
  proof (cases "k \<le> 0")
    case False
    with lo hi have k: "126 < k" "k \<le> 192" by simp_all
    from False have s1: "sc_s1 n = 0x7f000000" by (simp add: sc_s1_cases le)
    from False have "sc_s2 n e = word_of_int (k * 2 ^ 23)"
      by (simp add: sc_s2_def b e shifted_exponent)
    then have u: "uint (sc_s2 n e) = k * 2 ^ 23"
      using k by (simp only: uint_exponent_word)
    have n2: "is_normal (sc_s2 n e)" and v2: "valof (sc_s2 n e) = 2 powi (k - 127)"
      using k by (simp_all add: valof_exponent_word [OF u])
    have "(2::real) powi (127 + (k - 127)) = 2 powi 127 * 2 powi (k - 127)"
      by (rule power_int_add) simp
    then have "(2::real) powi 127 * 2 powi (k - 127) = 2 powi k" by simp
    with n2 have A: "is_normal (sc_s1 n) \<and> is_normal (sc_s2 n e)
      \<and> valof (sc_s1 n) * valof (sc_s2 n e) = 2 powi k"
      by (simp only: s1 s1_values v2 simp_thms)
    have "decode (sc_s2 n e) = VFin False (2 ^ 23) (k - 150)"
      using k by (intro decode_exponent_word [OF u]) simp_all
    then have "decode (sc_s2 n e) = VFin False (2 ^ 23) ((k - 127) - 23)" by simp
    moreover have "decode (sc_s1 n) = VFin False (2 ^ 23) (127 - 23)" by (simp only: s1 d1)
    moreover have "(k - 127) + 127 = k" "0 \<le> k - 127" "k - 127 \<le> 65" using k by simp_all
    ultimately have "\<exists>j J. decode (sc_s2 n e) = VFin False (2 ^ 23) (j - 23)
      \<and> decode (sc_s1 n) = VFin False (2 ^ 23) (J - 23) \<and> j + J = k
      \<and> (J = 127 \<and> 0 \<le> j \<and> j \<le> 65 \<or> J = - 125 \<and> - 67 \<le> j \<and> j \<le> - 2)"
      by blast
    with A show ?thesis by (rule conjI)
  next
    case True
    with lo hi have k: "- 192 \<le> k" "k < - 126" by simp_all
    from True have s1: "sc_s1 n = 0x01000000" by (simp add: sc_s1_cases le)
    have "sc_s2 n e = word_of_int (k * 2 ^ 23) - 0x82000000"
      using True by (simp add: sc_s2_def b e shifted_exponent)
    also have "\<dots> = word_of_int (k * 2 ^ 23 - 0x82000000)" by simp
    also have "\<dots> = word_of_int (k * 2 ^ 23 - 0x82000000 + 2 ^ 32)"
      by (simp only: word_of_int_wrap)
    also have "k * 2 ^ 23 - 0x82000000 + 2 ^ 32 = (k + 252) * 2 ^ 23"
      by (simp add: algebra_simps)
    finally have "sc_s2 n e = word_of_int ((k + 252) * 2 ^ 23)" .
    then have u: "uint (sc_s2 n e) = (k + 252) * 2 ^ 23"
      using k by (simp only: uint_exponent_word)
    have n2: "is_normal (sc_s2 n e)" and v2: "valof (sc_s2 n e) = 2 powi (k + 252 - 127)"
      using k by (simp_all add: valof_exponent_word [OF u])
    have "(2::real) powi (- 125 + (k + 252 - 127)) = 2 powi (- 125) * 2 powi (k + 252 - 127)"
      by (rule power_int_add) simp
    then have "(2::real) powi (- 125) * 2 powi (k + 252 - 127) = 2 powi k" by simp
    with n2 have A: "is_normal (sc_s1 n) \<and> is_normal (sc_s2 n e)
      \<and> valof (sc_s1 n) * valof (sc_s2 n e) = 2 powi k"
      by (simp only: s1 s1_values v2 simp_thms)
    have "decode (sc_s2 n e) = VFin False (2 ^ 23) (k + 252 - 150)"
      using k by (intro decode_exponent_word [OF u]) simp_all
    then have "decode (sc_s2 n e) = VFin False (2 ^ 23) ((k + 125) - 23)" by simp
    moreover have "decode (sc_s1 n) = VFin False (2 ^ 23) (- 125 - 23)" by (simp only: s1 d1)
    moreover have "(k + 125) + - 125 = k" "- 67 \<le> k + 125" "k + 125 \<le> - 2" using k by simp_all
    ultimately have "\<exists>j J. decode (sc_s2 n e) = VFin False (2 ^ 23) (j - 23)
      \<and> decode (sc_s1 n) = VFin False (2 ^ 23) (J - 23) \<and> j + J = k
      \<and> (J = 127 \<and> 0 \<le> j \<and> j \<le> 65 \<or> J = - 125 \<and> - 67 \<le> j \<and> j \<le> - 2)"
      by blast
    with A show ?thesis by (rule conjI)
  qed
  then show "is_normal (sc_s1 n) \<and> is_normal (sc_s2 n e)
      \<and> valof (sc_s1 n) * valof (sc_s2 n e) = 2 powi k"
    and "\<exists>j J. decode (sc_s2 n e) = VFin False (2 ^ 23) (j - 23)
      \<and> decode (sc_s1 n) = VFin False (2 ^ 23) (J - 23) \<and> j + J = k
      \<and> (J = 127 \<and> 0 \<le> j \<and> j \<le> 65 \<or> J = - 125 \<and> - 67 \<le> j \<and> j \<le> - 2)"
    by blast+
qed

lemma direct_scale_wraps:
  assumes lo: "126 < \<bar>k\<bar>" and hi: "\<bar>k\<bar> \<le> 192" and e: "e = push_bit 23 (word_of_int k)"
    and that: "k \<noteq> 127"
  shows "\<not> (is_normal (e + 0x3f800000) \<and> 0 < valof (e + 0x3f800000))"
proof -
  have sc: "e + 0x3f800000 = word_of_int ((k + 127) * 2 ^ 23)"
    by (simp add: e shifted_exponent algebra_simps)
  define E where "E = (if - 127 \<le> k then k + 127 else k + 127 + 512)"
  have "e + 0x3f800000 = word_of_int (E * 2 ^ 23)"
  proof (cases "- 127 \<le> k")
    case True
    then show ?thesis by (simp add: sc E_def)
  next
    case False
    have "(k + 127) * 2 ^ 23 + 2 ^ 32 = (k + 127 + 512) * 2 ^ 23" by (simp add: algebra_simps)
    then have "(word_of_int ((k + 127) * 2 ^ 23) :: u32) = word_of_int ((k + 127 + 512) * 2 ^ 23)"
      using word_of_int_wrap [of "(k + 127) * 2 ^ 23"] by simp
    with False show ?thesis by (simp only: sc E_def if_False)
  qed
  moreover have E: "0 \<le> E" "E < 512" using lo hi by (auto simp: E_def)
  ultimately have u: "uint (e + 0x3f800000) = E * 2 ^ 23"
    by (simp only: uint_exponent_word)
  note f = fields_of_exponent_word [OF u E]
  have "E = 255 \<or> E = 0 \<or> 256 \<le> E"
    using lo hi that by (auto simp: E_def)
  then consider "E = 255" | "E = 0" | "256 \<le> E" by auto
  then show ?thesis
  proof cases
    case 1
    then show ?thesis using f by (simp add: is_normal_def)
  next
    case 2
    then show ?thesis using f by (simp add: is_normal_def)
  next
    case 3
    then have "sign_of (e + 0x3f800000)" using f by simp
    then have "valof (e + 0x3f800000) \<le> 0" by (rule valof_sign)
    then show ?thesis by simp
  qed
qed

lemma handler_r1:
  assumes fin: "is_finite n" and val: "valof n = of_int k"
    and lo: "126 < \<bar>k\<bar>" and hi: "\<bar>k\<bar> \<le> 192"
    and e: "e = push_bit 23 (word_of_int k)"
  shows "fcagt n SpecialBound" "\<not> fcagt n ScaleBound"
    and "fmul (ffma (sc_s2 n e) p (sc_s2 n e)) (sc_s1 n)
       = encode (vmul (decode (ffma (hexf 1 0 0) p (hexf 1 0 0))) (VFin False 1 k))"
proof -
  have a: "\<bar>valof n\<bar> = real_of_int \<bar>k\<bar>" by (simp add: val)
  show "fcagt n SpecialBound" using lo by (simp only: fcagt_bounds [OF fin] a)
  show "\<not> fcagt n ScaleBound" using hi by (simp only: fcagt_bounds [OF fin] a)
  from factors(3) [OF fin val lo hi e] obtain j J where
    d: "decode (sc_s2 n e) = VFin False (2 ^ 23) (j - 23)"
      "decode (sc_s1 n) = VFin False (2 ^ 23) (J - 23)"
    and k: "j + J = k"
    and rng: "J = 127 \<and> 0 \<le> j \<and> j \<le> 65 \<or> J = - 125 \<and> - 67 \<le> j \<and> j \<le> - 2"
    by blast
  show "fmul (ffma (sc_s2 n e) p (sc_s2 n e)) (sc_s1 n)
       = encode (vmul (decode (ffma (hexf 1 0 0) p (hexf 1 0 0))) (VFin False 1 k))"
    using r1_rounding [OF d rng, of p] by (simp only: k)
qed

section \<open>The lanes that take \<open>r1\<close>\<close>

text \<open>
  A float with a 24-bit significand and an exponent in range is its own rounding, so
  an integer below \<open>2^24\<close> is represented exactly. If \<open>n = z - shift\<close> exceeds
  \<^verbatim>\<open>SpecialBound\<close> in magnitude and not \<^verbatim>\<open>scale_thresh\<close>, then \<open>z\<close> lies between
  \<open>shift - 195\<close> and \<open>shift + 195\<close>, where the floats are the integers: the bits of \<open>z\<close>
  are those of \<open>shift\<close> plus an integer \<open>k\<close>, \<open>n\<close> is \<open>k\<close>, and \<open>e\<close> is \<open>k\<close> shifted into the
  exponent field.
\<close>

lemma encode_normalised:
  assumes M: "2 ^ 23 \<le> M" "M < 2 ^ 24" and q: "- 149 \<le> q" "q \<le> 104"
  shows "decode (encode (VFin s M q)) = VFin s M q"
proof -
  from M have p: "0 < M" by simp
  have qe: "q = max (bitlen M - 1 + q - 23) (- 149)" using q by (simp add: bitlen_24 [OF M])
  have mant: "M = (if q \<le> q then M * 2 ^ nat (q - q) else rne_shift M (nat (q - q)))" by simp
  have "round_mag M q = min 2139095040 ((q + 149) * 2 ^ 23 + M)"
    by (rule round_mag_pos [OF p qe mant])
  moreover have "(q + 149) * 2 ^ 23 + M < 2139095040" using M q by simp
  ultimately have r: "round_mag M q = (q + 149) * 2 ^ 23 + M" by simp
  have lt: "round_mag M q < 2139095040" using M q by (simp add: r)
  have sp: "(q + 149) * 2 ^ 23 + M = (q + 150) * 2 ^ 23 + (M - 2 ^ 23)" by (simp add: algebra_simps)
  have "((q + 150) * 2 ^ 23 + (M - 2 ^ 23)) div 2 ^ 23 = q + 150 + (M - 2 ^ 23) div 2 ^ 23"
    by (rule div_mult_self3) simp
  moreover have "(M - 2 ^ 23) div 2 ^ 23 = 0"
    using M by (intro div_pos_pos_trivial) simp_all
  ultimately have dv: "((q + 150) * 2 ^ 23 + (M - 2 ^ 23)) div 2 ^ 23 = q + 150"
    by (simp only: add_0_right)
  have "((q + 150) * 2 ^ 23 + (M - 2 ^ 23)) mod 2 ^ 23 = (M - 2 ^ 23) mod 2 ^ 23"
    by (rule mod_mult_self3)
  moreover have "(M - 2 ^ 23) mod 2 ^ 23 = M - 2 ^ 23"
    using M by (intro mod_pos_pos_trivial) simp_all
  ultimately have md: "((q + 150) * 2 ^ 23 + (M - 2 ^ 23)) mod 2 ^ 23 = M - 2 ^ 23"
    by (simp only:)
  have dm: "round_mag M q div 2 ^ 23 = q + 150" "round_mag M q mod 2 ^ 23 = M - 2 ^ 23"
    by (simp_all only: r sp dv md)
  have nz: "q + 150 \<noteq> 0" using q by simp
  from encode_finite [OF lt, of s] show ?thesis
    using nz by (simp only: dm if_False) simp
qed

lemma encode_exact_value:
  assumes a: "0 < a" "a < 2 ^ 24"
  shows "\<exists>m e. decode (encode (VFin s a 0)) = VFin s m e
           \<and> real_of_int m * 2 powi e = real_of_int a"
proof -
  from bitlen_bounds [OF a(1)] have b: "2 ^ nat (bitlen a - 1) \<le> a" "a < 2 ^ nat (bitlen a)"
    by simp_all
  have b1: "1 \<le> bitlen a" using a(1) by (simp add: bitlen_alt_def)
  from b(1) a(2) have "(2::int) ^ nat (bitlen a - 1) < 2 ^ 24" by simp
  then have "nat (bitlen a - 1) < 24" by (simp only: power_strict_increasing_iff)
  then have b2: "bitlen a \<le> 24" by simp
  define c where "c = nat (24 - bitlen a)"
  define M where "M = a * 2 ^ c"
  have cb: "int c = 24 - bitlen a" using b2 by (simp add: c_def)
  have "bitlen M = 24" using a(1) cb by (simp add: M_def)
  with bitlen_bounds [of M] a(1) have M: "2 ^ 23 \<le> M" "M < 2 ^ 24" by (simp_all add: M_def)
  have "encode (VFin s M (- int c)) = encode (VFin s a (- int c + int c))"
    unfolding M_def by (rule encode_repr [OF a(1)])
  then have "encode (VFin s a 0) = encode (VFin s M (- int c))" by simp
  moreover have "decode (encode (VFin s M (- int c))) = VFin s M (- int c)"
    using cb b1 by (intro encode_normalised [OF M]) simp_all
  ultimately have d: "decode (encode (VFin s a 0)) = VFin s M (- int c)" by (simp only:)
  have "real_of_int M * 2 powi (- int c) = real_of_int a * (2 ^ c * 2 powi (- int c))"
    by (simp add: M_def)
  also have "(2::real) ^ c * 2 powi (- int c) = 1" by (simp add: power_int_minus)
  finally have "real_of_int M * 2 powi (- int c) = real_of_int a" by simp
  with d show ?thesis by blast
qed

lemma finite_of_decode: "decode w = VFin s m e \<Longrightarrow> is_finite w"
  using expo_of_bounds(2) [of w] by (auto simp: decode_def is_finite_def split: if_splits)

lemma decode_shift: "decode (hexf 0x18 4 23) = VFin False 12582912 0"
  by code_simp

lemma nan_not_greater: "decode n = VNaN \<Longrightarrow> \<not> fcagt n b"
  by (simp add: fcagt_def)

lemma encode_nan: "decode (encode VNaN) = VNaN"
  by code_simp

lemma z_in_binade:
  assumes c1: "fcagt (fsub z (hexf 0x18 4 23)) SpecialBound"
    and c2: "\<not> fcagt (fsub z (hexf 0x18 4 23)) ScaleBound"
  shows "\<exists>m. decode z = VFin False m 0 \<and> 12582717 < m \<and> m < 12583107
           \<and> uint z = 0x4b000000 + (m - 2 ^ 23)"
proof -
  have nn: "decode z \<noteq> VNaN"
  proof
    assume "decode z = VNaN"
    then have "fsub z (hexf 0x18 4 23) = encode VNaN" by (simp add: fsub_def)
    then have "decode (fsub z (hexf 0x18 4 23)) = VNaN" by (simp only: encode_nan)
    with c1 show False using nan_not_greater by blast
  qed
  have ni: "decode z \<noteq> VInf s" for s
  proof
    assume i: "decode z = VInf s"
    have "fcagt (fsub z (hexf 0x18 4 23)) ScaleBound"
    proof (cases s)
      case True
      with i show ?thesis by (intro stage2_neg(1) disjI1) simp
    next
      case False
      with i show ?thesis by (intro stage2_pos(1) disjI1) simp
    qed
    with c2 show False by blast
  qed
  from nn ni obtain s m e where d: "decode z = VFin s m e" by (cases "decode z") auto
  note R = decode_ranges [OF d]
  have lo: "12582717 < fval_real (VFin s m e)"
  proof (rule ccontr)
    assume "\<not> 12582717 < fval_real (VFin s m e)"
    then have "\<exists>s m e. decode z = VFin s m e \<and> fval_real (VFin s m e) \<le> 12582717"
      using d by (intro exI [of _ s] exI [of _ m] exI [of _ e]) simp
    then have "fcagt (fsub z (hexf 0x18 4 23)) ScaleBound" by (intro stage2_neg(1) disjI2)
    with c2 show False by blast
  qed
  have p0: "0 < fval_real (VFin s m e)" by (rule less_trans [OF _ lo]) simp
  note pos = fval_real_pos(1,2) [OF p0 R(1)] and v = fval_real_pos(3) [OF p0 R(1)]
  have hi: "real_of_int m * 2 powi e < 12583107"
  proof (rule ccontr)
    assume "\<not> real_of_int m * 2 powi e < 12583107"
    then have "\<exists>m e. decode z = VFin False m e \<and> 12583107 \<le> real_of_int m * 2 powi e"
      using d pos by (intro exI [of _ m] exI [of _ e]) simp
    then have "fcagt (fsub z (hexf 0x18 4 23)) ScaleBound" by (intro stage2_pos(1) disjI2)
    with c2 show False by blast
  qed
  from lo have lo': "12582717 < real_of_int m * 2 powi e" by (simp only: v)
  have fin: "expo_of z < 255" using finite_of_decode [OF d] by (simp add: is_finite_def)
  have av: "\<bar>valof z\<bar> = real_of_int m * 2 powi e" by (rule abs_value_finite [OF d])
  have ex: "expo_of z = 150"
  proof -
    have nz: "expo_of z \<noteq> 0"
    proof
      assume "expo_of z = 0"
      then have "\<bar>valof z\<bar> < 2 powi (- 126)" by (rule subnormal_bound)
      moreover have "(2::real) powi (- 126) \<le> 2 powi 0" by (intro pow2_le) simp
      ultimately show False using lo' av by simp
    qed
    with expo_of_bounds(1) [of z] have p: "0 < expo_of z" by simp
    note nb = normal_bounds [OF p fin]
    have "(2::real) powi (expo_of z - 127) < 2 powi 24"
    proof -
      have "(2::real) powi (expo_of z - 127) \<le> real_of_int m * 2 powi e" using nb(1) av by simp
      also have "\<dots> < 12583107" by (rule hi)
      also have "\<dots> < (2::real) powi 24" by simp
      finally show ?thesis .
    qed
    then have a: "expo_of z - 127 < 24" by (rule pow2_less_imp)
    have "(2::real) powi 23 < 2 powi (expo_of z - 126)"
    proof -
      have "(2::real) powi 23 < 12582717" by simp
      also have "\<dots> < real_of_int m * 2 powi e" by (rule lo')
      also have "\<dots> < 2 powi (expo_of z - 126)" using nb(2) av by simp
      finally show ?thesis .
    qed
    then have "23 < expo_of z - 126" by (rule pow2_less_imp)
    with a show ?thesis by simp
  qed
  from d ex have e0: "e = 0" and m: "m = 2 ^ 23 + frac_of z" and sg: "s = sign_of z"
    by (simp_all add: decode_def)
  from pos sg have "\<not> sign_of z" by simp
  then have "uint z < 2 ^ 31" by (simp add: sign_of_def)
  then have "uint (z AND 0x7fffffff) = uint z" by (simp add: uint_abs_bits)
  then have u: "uint z = 150 * 2 ^ 23 + frac_of z" using abs_bits_split [of z] ex by simp
  from lo' hi have "12582717 < m" "m < 12583107" by (simp_all add: e0)
  moreover have "decode z = VFin False m 0" using d pos e0 by simp
  moreover have "uint z = 0x4b000000 + (m - 2 ^ 23)" using u m by simp
  ultimately show ?thesis by blast
qed

lemma flagged_lane_integer:
  assumes c1: "lane_cmp1 x" and c2: "\<not> lane_cmp2 x"
  shows "\<exists>k. 126 < \<bar>k\<bar> \<and> \<bar>k\<bar> \<le> 192 \<and> is_finite (lane_n x)
           \<and> valof (lane_n x) = of_int k \<and> lane_e x = push_bit 23 (word_of_int k)"
proof -
  from c1 c2 have a: "fcagt (fsub (lane_z x) (hexf 0x18 4 23)) SpecialBound"
    "\<not> fcagt (fsub (lane_z x) (hexf 0x18 4 23)) ScaleBound"
    by (simp_all add: lane_cmp1_def lane_cmp2_def lane_n_def)
  from z_in_binade [OF a] obtain m where
    d: "decode (lane_z x) = VFin False m 0" and m: "12582717 < m" "m < 12583107"
    and u: "uint (lane_z x) = 0x4b000000 + (m - 2 ^ 23)"
    by blast
  define k where "k = m - 12582912"
  have n: "lane_n x = encode (if k = 0 then VFin False 0 0 else VFin (k < 0) \<bar>k\<bar> 0)"
    by (simp add: lane_n_def fsub_def d decode_shift k_def Let_def)
  have "word_of_int (uint (lane_z x)) = (word_of_int (0x4b000000 + (m - 2 ^ 23)) :: u32)"
    by (simp only: u)
  then have "lane_z x = 0x4b400000 + word_of_int k" by (simp add: k_def)
  then have e: "lane_e x = push_bit 23 (word_of_int k)" by (rule lane_e_from_z)
  have fv: "is_finite (lane_n x) \<and> \<bar>valof (lane_n x)\<bar> = real_of_int \<bar>k\<bar>
      \<and> valof (lane_n x) = of_int k"
  proof (cases "k = 0")
    case True
    then have "decode (lane_n x) = VFin False 0 (- 149)" by (simp only: n simp_thms if_True encode_zero)
    then show ?thesis using True finite_of_decode [of "lane_n x" False 0 "- 149"]
      by (simp add: valof_def)
  next
    case False
    then have p: "0 < \<bar>k\<bar>" "\<bar>k\<bar> < 2 ^ 24" using m by (simp_all add: k_def)
    from encode_exact_value [OF p, of "k < 0"] obtain m' e' where
      d': "decode (encode (VFin (k < 0) \<bar>k\<bar> 0)) = VFin (k < 0) m' e'"
      and v': "real_of_int m' * 2 powi e' = real_of_int \<bar>k\<bar>"
      by blast
    from d' have dn: "decode (lane_n x) = VFin (k < 0) m' e'" using False by (simp only: n if_False)
    then have "is_finite (lane_n x)" by (rule finite_of_decode)
    moreover have "valof (lane_n x) = of_int k"
      using v' by (simp add: valof_def dn)
    ultimately show ?thesis by simp
  qed
  then have fin: "is_finite (lane_n x)" and av: "\<bar>valof (lane_n x)\<bar> = real_of_int \<bar>k\<bar>"
    and val: "valof (lane_n x) = of_int k" by simp_all
  from c1 have "126 < \<bar>k\<bar>" by (simp add: lane_cmp1_def fcagt_bounds [OF fin] av)
  moreover from c2 have "\<bar>k\<bar> \<le> 192" by (simp add: lane_cmp2_def fcagt_bounds [OF fin] av)
  ultimately show ?thesis using fin val e by blast
qed

lemma valof_not_finite: "\<not> is_finite w \<Longrightarrow> valof w = 0"
  using expo_of_bounds(2) [of w] by (simp add: valof_def decode_def is_finite_def)

section \<open>Bounds on \<open>ln 2\<close> and \<open>ln 10\<close>\<close>

text \<open>
  The exponential is enclosed by a partial sum of its series, evaluated in Horner form with
  every intermediate value rounded to a multiple of \<open>2^-68\<close>, at the argument divided
  by \<open>2^8\<close>; eight squarings, rounded the same way, give the enclosure at the argument.
\<close>

lemma exp_ge_partial:
  fixes y :: real
  assumes "0 \<le> y"
  shows "(\<Sum>m<n. y ^ m / fact m) \<le> exp y"
proof -
  obtain t where "exp y = (\<Sum>m<n. y ^ m / fact m) + (exp t / fact n) * y ^ n"
    using Maclaurin_exp_le [of y n] by blast
  moreover have "0 \<le> (exp t / fact n) * y ^ n"
    using assms by simp
  ultimately show ?thesis by linarith
qed

lemma exp_le_partial:
  fixes y :: real
  assumes "0 \<le> y" "y \<le> 1"
  shows "exp y \<le> (\<Sum>m<n. y ^ m / fact m) + 3 * y ^ n / fact n"
proof -
  obtain t where t: "\<bar>t\<bar> \<le> \<bar>y\<bar>"
    and e: "exp y = (\<Sum>m<n. y ^ m / fact m) + (exp t / fact n) * y ^ n"
    using Maclaurin_exp_le [of y n] by blast
  from t assms have "t \<le> 1" by linarith
  then have "exp t \<le> exp 1" by simp
  also have "\<dots> \<le> 3" by (rule exp_le)
  finally have "exp t * (y ^ n / fact n) \<le> 3 * (y ^ n / fact n)"
    using assms by (intro mult_right_mono) simp_all
  with e show ?thesis by simp
qed

lemma partial8:
  fixes y :: real
  shows "(\<Sum>m<8. y ^ m / fact m)
    = 1 + y * (1 + y / 2 * (1 + y / 3 * (1 + y / 4 * (1 + y / 5 * (1 + y / 6 * (1 + y / 7))))))"
  by (simp add: lessThan_nat_numeral fact_numeral power_numeral_reduce field_simps)

lemma horner_lower:
  fixes t :: real
  shows "l' \<le> h \<Longrightarrow> 0 \<le> t \<Longrightarrow> l \<le> 1 + t * l' \<Longrightarrow> l \<le> 1 + t * h"
  by (meson add_left_mono mult_left_mono order_trans)

lemma horner_upper:
  fixes t :: real
  shows "h \<le> u' \<Longrightarrow> 0 \<le> t \<Longrightarrow> 1 + t * u' \<le> u \<Longrightarrow> 1 + t * h \<le> u"
  by (meson add_left_mono mult_left_mono order_trans)

lemma exp_lower_cert:
  fixes y :: real
  assumes y: "0 \<le> y"
    and "la \<le> 1 + y / 7" "lb \<le> 1 + y / 6 * la" "lc \<le> 1 + y / 5 * lb"
    and "ld \<le> 1 + y / 4 * lc" "le \<le> 1 + y / 3 * ld" "lf \<le> 1 + y / 2 * le"
    and "r \<le> 1 + y * lf"
  shows "r \<le> exp y"
proof -
  note s = horner_lower
  from y have t: "0 \<le> y / 6" "0 \<le> y / 5" "0 \<le> y / 4" "0 \<le> y / 3" "0 \<le> y / 2"
    by simp_all
  have "r \<le> (\<Sum>m<8. y ^ m / fact m)"
    unfolding partial8
    by (rule s [OF s [OF s [OF s [OF s [OF s [OF assms(2) t(1) assms(3)] t(2) assms(4)]
      t(3) assms(5)] t(4) assms(6)] t(5) assms(7)] y assms(8)])
  also have "\<dots> \<le> exp y" using y by (rule exp_ge_partial)
  finally show ?thesis .
qed

lemma exp_upper_cert:
  fixes y :: real
  assumes y: "0 \<le> y" "y \<le> 1"
    and "1 + y / 7 \<le> ua" "1 + y / 6 * ua \<le> ub" "1 + y / 5 * ub \<le> uc"
    and "1 + y / 4 * uc \<le> ud" "1 + y / 3 * ud \<le> ue" "1 + y / 2 * ue \<le> uf"
    and "1 + y * uf \<le> ug" "ug + 3 * y ^ 8 / 40320 \<le> u"
  shows "exp y \<le> u"
proof -
  note s = horner_upper
  from y have t: "0 \<le> y / 6" "0 \<le> y / 5" "0 \<le> y / 4" "0 \<le> y / 3" "0 \<le> y / 2"
    by simp_all
  have "(\<Sum>m<8. y ^ m / fact m) \<le> ug"
    unfolding partial8
    by (rule s [OF s [OF s [OF s [OF s [OF s [OF assms(3) t(1) assms(4)] t(2) assms(5)]
      t(3) assms(6)] t(4) assms(7)] t(5) assms(8)] y(1) assms(9)])
  moreover have "exp y \<le> (\<Sum>m<8. y ^ m / fact m) + 3 * y ^ 8 / fact 8"
    using y by (rule exp_le_partial)
  moreover have "fact 8 = (40320 :: real)" by (simp add: fact_numeral)
  ultimately show ?thesis using assms(10) by simp
qed

lemma square_lower:
  fixes y :: real
  shows "r \<le> exp y \<Longrightarrow> 2 * y = z \<Longrightarrow> 0 \<le> r \<Longrightarrow> r' \<le> r * r \<Longrightarrow> r' \<le> exp z"
proof -
  assume r: "r \<le> exp y" and z: "2 * y = z" and p: "0 \<le> r" and s: "r' \<le> r * r"
  from r p have "r * r \<le> exp y * exp y" by (intro mult_mono) simp_all
  also have "\<dots> = exp z" using z by (simp flip: exp_add)
  finally show ?thesis using s by simp
qed

lemma square_upper:
  fixes y :: real
  shows "exp y \<le> u \<Longrightarrow> 2 * y = z \<Longrightarrow> u * u \<le> u' \<Longrightarrow> exp z \<le> u'"
proof -
  assume u: "exp y \<le> u" and z: "2 * y = z" and s: "u * u \<le> u'"
  have p: "0 \<le> u" using u exp_ge_zero [of y] by (rule order_trans [rotated])
  have "exp z = exp y * exp y" using z by (simp flip: exp_add)
  also from u p have "\<dots> \<le> u * u" by (intro mult_mono) simp_all
  finally show ?thesis using s by simp
qed

lemma ln_less_of_less_exp: "0 < c \<Longrightarrow> c < exp b \<Longrightarrow> ln c < (b::real)"
  by (metis exp_less_cancel_iff exp_ln)

lemma less_ln_of_exp_less: "0 < c \<Longrightarrow> exp a < c \<Longrightarrow> (a::real) < ln c"
  by (metis exp_less_cancel_iff exp_ln)

lemma ln2_upper: "ln (2::real) < 24973259072661437 / 2 ^ 55"
proof -
  have "295948132330785134103 / 2 ^ 68 \<le> exp (24973259072661437 / 2 ^ 63 :: real)"
    by (rule exp_lower_cert [where la = "295262068649399278139 / 2 ^ 68"
        and lb = "295281147412693078544 / 2 ^ 68"
        and lc = "295307806190916586635 / 2 ^ 68"
        and ld = "295347799489175654562 / 2 ^ 68"
        and le = "295414467021150359920 / 2 ^ 68"
        and lf = "295547838196759719056 / 2 ^ 68"])
      simp_all
  then have "296750529118127615373 / 2 ^ 68 \<le> exp (24973259072661437 / 2 ^ 62 :: real)"
    by (rule square_lower) simp_all
  then have "298361855146410962560 / 2 ^ 68 \<le> exp (24973259072661437 / 2 ^ 61 :: real)"
    by (rule square_lower) simp_all
  then have "301610802734016248585 / 2 ^ 68 \<le> exp (24973259072661437 / 2 ^ 60 :: real)"
    by (rule square_lower) simp_all
  then have "308215219317170463452 / 2 ^ 68 \<le> exp (24973259072661437 / 2 ^ 59 :: real)"
    by (rule square_lower) simp_all
  then have "321861072878036508011 / 2 ^ 68 \<le> exp (24973259072661437 / 2 ^ 58 :: real)"
    by (rule square_lower) simp_all
  then have "350991988817434849049 / 2 ^ 68 \<le> exp (24973259072661437 / 2 ^ 57 :: real)"
    by (rule square_lower) simp_all
  then have "417402170410649031518 / 2 ^ 68 \<le> exp (24973259072661437 / 2 ^ 56 :: real)"
    by (rule square_lower) simp_all
  then have "590295810358705653756 / 2 ^ 68 \<le> exp (24973259072661437 / 2 ^ 55 :: real)"
    by (rule square_lower) simp_all
  then have "2 < exp (24973259072661437 / 2 ^ 55 :: real)" by simp
  then show ?thesis by (rule ln_less_of_less_exp [rotated]) simp
qed

lemma ln2_lower: "49946518145322873 / 2 ^ 56 < ln (2::real)"
proof -
  have "exp (49946518145322873 / 2 ^ 64 :: real) \<le> 295948132330785134089 / 2 ^ 68"
    by (rule exp_upper_cert [where ua = "295262068649399278138 / 2 ^ 68"
        and ub = "295281147412693078543 / 2 ^ 68"
        and uc = "295307806190916586633 / 2 ^ 68"
        and ud = "295347799489175654559 / 2 ^ 68"
        and ue = "295414467021150359916 / 2 ^ 68"
        and uf = "295547838196759719049 / 2 ^ 68"
        and ug = "295948132330785134088 / 2 ^ 68"])
      (simp_all add: power_divide)
  then have "exp (49946518145322873 / 2 ^ 63 :: real) \<le> 296750529118127615346 / 2 ^ 68"
    by (rule square_upper) simp_all
  then have "exp (49946518145322873 / 2 ^ 62 :: real) \<le> 298361855146410962506 / 2 ^ 68"
    by (rule square_upper) simp_all
  then have "exp (49946518145322873 / 2 ^ 61 :: real) \<le> 301610802734016248476 / 2 ^ 68"
    by (rule square_upper) simp_all
  then have "exp (49946518145322873 / 2 ^ 60 :: real) \<le> 308215219317170463230 / 2 ^ 68"
    by (rule square_upper) simp_all
  then have "exp (49946518145322873 / 2 ^ 59 :: real) \<le> 321861072878036507549 / 2 ^ 68"
    by (rule square_upper) simp_all
  then have "exp (49946518145322873 / 2 ^ 58 :: real) \<le> 350991988817434848042 / 2 ^ 68"
    by (rule square_upper) simp_all
  then have "exp (49946518145322873 / 2 ^ 57 :: real) \<le> 417402170410649029124 / 2 ^ 68"
    by (rule square_upper) simp_all
  then have "exp (49946518145322873 / 2 ^ 56 :: real) \<le> 590295810358705646986 / 2 ^ 68"
    by (rule square_upper) simp_all
  then have "exp (49946518145322873 / 2 ^ 56 :: real) < 2" by simp
  then show ?thesis by (rule less_ln_of_exp_less [rotated]) simp
qed

lemma ln10_upper: "ln (10::real) < 165918741868749489 / 2 ^ 56"
proof -
  have "297814579737507555112 / 2 ^ 68 \<le> exp (165918741868749489 / 2 ^ 64 :: real)"
    by (rule exp_lower_cert [where la = "295527148017909967545 / 2 ^ 68"
        and lb = "295590923672582698465 / 2 ^ 68"
        and lc = "295679642096909724055 / 2 ^ 68"
        and ld = "295812775820167434278 / 2 ^ 68"
        and le = "296034798522999579791 / 2 ^ 68"
        and lf = "296479243683428127746 / 2 ^ 68"])
      simp_all
  then have "300505347819872759380 / 2 ^ 68 \<le> exp (165918741868749489 / 2 ^ 63 :: real)"
    by (rule square_lower) simp_all
  then have "305960037268324532053 / 2 ^ 68 \<le> exp (165918741868749489 / 2 ^ 62 :: real)"
    by (rule square_lower) simp_all
  then have "317168249418370476920 / 2 ^ 68 \<le> exp (165918741868749489 / 2 ^ 61 :: real)"
    by (rule square_lower) simp_all
  then have "340831483719949069688 / 2 ^ 68 \<le> exp (165918741868749489 / 2 ^ 60 :: real)"
    by (rule square_lower) simp_all
  then have "393586057214775541611 / 2 ^ 68 \<le> exp (165918741868749489 / 2 ^ 59 :: real)"
    by (rule square_lower) simp_all
  then have "524855442696563471653 / 2 ^ 68 \<le> exp (165918741868749489 / 2 ^ 58 :: real)"
    by (rule square_lower) simp_all
  then have "933339626994162545356 / 2 ^ 68 \<le> exp (165918741868749489 / 2 ^ 57 :: real)"
    by (rule square_lower) simp_all
  then have "2951479051793528282458 / 2 ^ 68 \<le> exp (165918741868749489 / 2 ^ 56 :: real)"
    by (rule square_lower) simp_all
  then have "10 < exp (165918741868749489 / 2 ^ 56 :: real)" by simp
  then show ?thesis by (rule ln_less_of_less_exp [rotated]) simp
qed

lemma ln10_lower: "10369921366796843 / 2 ^ 52 < ln (10::real)"
proof -
  have "exp (10369921366796843 / 2 ^ 60 :: real) \<le> 297814579737507555098 / 2 ^ 68"
    by (rule exp_upper_cert [where ua = "295527148017909967543 / 2 ^ 68"
        and ub = "295590923672582698464 / 2 ^ 68"
        and uc = "295679642096909724053 / 2 ^ 68"
        and ud = "295812775820167434275 / 2 ^ 68"
        and ue = "296034798522999579787 / 2 ^ 68"
        and uf = "296479243683428127739 / 2 ^ 68"
        and ug = "297814579737507555097 / 2 ^ 68"])
      (simp_all add: power_divide)
  then have "exp (10369921366796843 / 2 ^ 59 :: real) \<le> 300505347819872759352 / 2 ^ 68"
    by (rule square_upper) simp_all
  then have "exp (10369921366796843 / 2 ^ 58 :: real) \<le> 305960037268324531997 / 2 ^ 68"
    by (rule square_upper) simp_all
  then have "exp (10369921366796843 / 2 ^ 57 :: real) \<le> 317168249418370476805 / 2 ^ 68"
    by (rule square_upper) simp_all
  then have "exp (10369921366796843 / 2 ^ 56 :: real) \<le> 340831483719949069442 / 2 ^ 68"
    by (rule square_upper) simp_all
  then have "exp (10369921366796843 / 2 ^ 55 :: real) \<le> 393586057214775541044 / 2 ^ 68"
    by (rule square_upper) simp_all
  then have "exp (10369921366796843 / 2 ^ 54 :: real) \<le> 524855442696563470142 / 2 ^ 68"
    by (rule square_upper) simp_all
  then have "exp (10369921366796843 / 2 ^ 53 :: real) \<le> 933339626994162539983 / 2 ^ 68"
    by (rule square_upper) simp_all
  then have "exp (10369921366796843 / 2 ^ 52 :: real) \<le> 2951479051793528248477 / 2 ^ 68"
    by (rule square_upper) simp_all
  then have "exp (10369921366796843 / 2 ^ 52 :: real) < 10" by simp
  then show ?thesis by (rule less_ln_of_exp_less [rotated]) simp
qed

section \<open>The values of the constants\<close>

lemma quotient_lower:
  fixes N D :: real
  assumes "aN < N" "D < bD" "0 < D" "0 \<le> l" "l * bD \<le> aN"
  shows "l < N / D"
proof -
  have "l * D \<le> l * bD" using assms by (intro mult_left_mono) simp_all
  with assms have "l * D < N" by linarith
  with assms show ?thesis by (simp add: pos_less_divide_eq)
qed

lemma quotient_upper:
  fixes N D :: real
  assumes "N < bN" "aD < D" "0 < aD" "0 \<le> h" "bN \<le> h * aD"
  shows "N / D < h"
proof -
  from assms have d: "0 < D" by linarith
  have "h * aD \<le> h * D" using assms by (intro mult_left_mono) simp_all
  with assms have "N < h * D" by linarith
  with d show ?thesis by (simp add: pos_divide_less_eq)
qed

lemma const_values:
  "valof (hexf 0x18 4 23) = 12582912"
  "valof (hexf 0x1a934f 20 1) = 13933176 / 2 ^ 22"
  "valof (hexf 0x1344136 24 (- 2)) = 10100891 / 2 ^ 25"
  "valof (hexf (- 0x1ec10c) 20 (- 27)) = - (16124000 / 2 ^ 50)"
proof -
  have d: "decode (hexf 0x18 4 23) = VFin False 12582912 0"
    "decode (hexf 0x1a934f 20 1) = VFin False 13933176 (- 22)"
    "decode (hexf 0x1344136 24 (- 2)) = VFin False 10100891 (- 25)"
    "decode (hexf (- 0x1ec10c) 20 (- 27)) = VFin True 16124000 (- 50)"
    by code_simp+
  show "valof (hexf 0x18 4 23) = 12582912"
    "valof (hexf 0x1a934f 20 1) = 13933176 / 2 ^ 22"
    "valof (hexf 0x1344136 24 (- 2)) = 10100891 / 2 ^ 25"
    "valof (hexf (- 0x1ec10c) 20 (- 27)) = - (16124000 / 2 ^ 50)"
    by (simp_all add: valof_def d power_int_minus field_simps)
qed

lemma log2_10_bounds:
  "13933176 / 2 ^ 22 - 1 / 2 ^ 23 < log 2 (10::real)"
  "log 2 (10::real) < 13933176 / 2 ^ 22 + 1 / 2 ^ 23"
proof -
  show "13933176 / 2 ^ 22 - 1 / 2 ^ 23 < log 2 (10::real)"
    unfolding log_def by (rule quotient_lower [OF ln10_lower ln2_upper]) simp_all
  show "log 2 (10::real) < 13933176 / 2 ^ 22 + 1 / 2 ^ 23"
    unfolding log_def by (rule quotient_upper [OF ln10_upper ln2_lower]) simp_all
qed

lemma log10_2_bounds:
  "10100891 / 2 ^ 25 - 16124000 / 2 ^ 50 - 1 / 2 ^ 53 < log 10 (2::real)"
  "log 10 (2::real) < 10100891 / 2 ^ 25 - 16124000 / 2 ^ 50 + 1 / 2 ^ 53"
  "10100891 / 2 ^ 25 - 1 / 2 ^ 26 < log 10 (2::real)"
  "log 10 (2::real) < 10100891 / 2 ^ 25 + 1 / 2 ^ 26"
proof -
  show "10100891 / 2 ^ 25 - 16124000 / 2 ^ 50 - 1 / 2 ^ 53 < log 10 (2::real)"
    unfolding log_def by (rule quotient_lower [OF ln2_lower ln10_upper]) simp_all
  show "log 10 (2::real) < 10100891 / 2 ^ 25 - 16124000 / 2 ^ 50 + 1 / 2 ^ 53"
    unfolding log_def by (rule quotient_upper [OF ln2_upper ln10_lower]) simp_all
  show "10100891 / 2 ^ 25 - 1 / 2 ^ 26 < log 10 (2::real)"
    unfolding log_def by (rule quotient_lower [OF ln2_lower ln10_upper]) simp_all
  show "log 10 (2::real) < 10100891 / 2 ^ 25 + 1 / 2 ^ 26"
    unfolding log_def by (rule quotient_upper [OF ln2_upper ln10_lower]) simp_all
qed


lemma binade_2_4:
  assumes fin: "is_finite w"
  shows "valof w < 2 \<or> 4 \<le> valof w \<or> (\<exists>M::int. valof w = real_of_int M / 2 ^ 22)"
proof -
  define E where "E = expo_of w"
  have E: "0 \<le> E" "E < 255"
    using expo_of_bounds [of w] fin by (simp_all add: E_def is_finite_def)
  then consider "E = 0" | "0 < E" "E \<le> 127" | "E = 128" | "129 \<le> E" "E < 255" by linarith
  then show ?thesis
  proof cases
    case 1
    then have "\<bar>valof w\<bar> < 2 powi (- 126)" unfolding E_def by (rule subnormal_bound)
    also have "(2::real) powi (- 126) \<le> 2 powi 1" by (rule pow2_le) simp
    finally have "valof w < 2" by simp
    then show ?thesis by blast
  next
    case 2
    then have "\<bar>valof w\<bar> < 2 powi (E - 126)"
      unfolding E_def by (intro normal_bounds) simp_all
    also have "(2::real) powi (E - 126) \<le> 2 powi 1" using 2 by (intro pow2_le) simp
    finally have "valof w < 2" by simp
    then show ?thesis by blast
  next
    case 3
    have "valof w = (if sign_of w then - 1 else 1) * real_of_int (2 ^ 23 + frac_of w) / 2 ^ 22"
      using 3 by (simp add: valof_def decode_def E_def power_int_minus field_simps)
    then have "valof w = real_of_int ((if sign_of w then - 1 else 1) * (2 ^ 23 + frac_of w)) / 2 ^ 22"
      by simp
    then show ?thesis by blast
  next
    case 4
    have "(2::real) powi 2 \<le> 2 powi (E - 127)" using 4 by (intro pow2_le) simp
    also have "\<dots> \<le> \<bar>valof w\<bar>" using 4 unfolding E_def by (intro normal_bounds) simp_all
    finally have "valof w < 2 \<or> 4 \<le> valof w" by (simp add: abs_if split: if_splits)
    then show ?thesis by blast
  qed
qed

lemma log2_10_nearest:
  assumes "is_finite w"
  shows "\<bar>13933176 / 2 ^ 22 - log 2 10\<bar> \<le> \<bar>valof w - log 2 10\<bar>"
proof -
  define L :: real where "L = log 2 10"
  have L: "13933176 / 2 ^ 22 - 1 / 2 ^ 23 < L" "L < 13933176 / 2 ^ 22 + 1 / 2 ^ 23"
    unfolding L_def by (rule log2_10_bounds)+
  from binade_2_4 [OF assms]
  consider "valof w < 2" | "4 \<le> valof w" | M :: int where "valof w = real_of_int M / 2 ^ 22"
    by blast
  then have "\<bar>13933176 / 2 ^ 22 - L\<bar> \<le> \<bar>valof w - L\<bar>"
  proof cases
    case 1
    with L show ?thesis by simp
  next
    case 2
    with L show ?thesis by simp
  next
    case 3
    show ?thesis
    proof (cases "M = 13933176")
      case True
      with 3 show ?thesis by simp
    next
      case False
      then have "M \<le> 13933175 \<or> 13933177 \<le> M" by linarith
      then have "real_of_int M \<le> 13933175 \<or> 13933177 \<le> real_of_int M"
        by (metis of_int_le_iff of_int_numeral)
      then have "real_of_int M / 2 ^ 22 \<le> 13933175 / 2 ^ 22
                   \<or> 13933177 / 2 ^ 22 \<le> real_of_int M / 2 ^ 22"
        by (simp add: divide_le_cancel)
      with L 3 show ?thesis by auto
    qed
  qed
  then show ?thesis by (simp only: L_def)
qed

section \<open>The examples of the source and of the specification\<close>

text \<open>
  The comment above the entry point records
  \<^verbatim>\<open>_ZGVnN4v_exp10f(0x1.be2b36p+1) got 0x1.7e79c4p+11\<close>: the input is the word
  \<^verbatim>\<open>0x405f159b\<close>, the result the word \<^verbatim>\<open>0x453f3ce2\<close>. Both builds compute it (with
  \<^verbatim>\<open>WANT_SIMD_EXCEPT\<close> no lane is special, so the scalar routine is not called).
\<close>

lemma documented_worst_case:
  "hexf 0x1be2b36 24 1 = 0x405f159b"
  "hexf 0x17e79c4 24 11 = 0x453f3ce2"
  "exp10_fast (V4 0x405f159b) = V4 0x453f3ce2"
  "exp10_except (\<lambda>w. 0) (V4 0x405f159b) = V4 0x453f3ce2"
  by code_simp+

text \<open>\<open>10^0 = 1\<close> and \<open>10^1 = 10\<close> exactly, in both builds.\<close>

lemma small_examples:
  "exp10_fast (Vec4 0 (hexf 1 0 0) 0 (hexf 1 0 0)) = Vec4 (hexf 1 0 0) (hexf 10 0 0) (hexf 1 0 0) (hexf 10 0 0)"
  "lane (exp10_except (\<lambda>w. hexf 1 0 0) (Vec4 0 (hexf 1 0 0) 0 (hexf 1 0 0))) 1 = hexf 10 0 0"
  by code_simp+

section \<open>The polynomial (claim C8)\<close>

text \<open>
  Claim C8. Over exact real arithmetic, with \<open>fma a b c = a + b * c\<close>, the factored
  evaluation of lines 117 to 122 (\<open>r2 = r * r\<close>, \<open>p = c3 + c4 * r\<close>, \<open>q = c1 + c2 * r\<close>,
  \<open>q = q + p * r2\<close>, \<open>p = c0 * r\<close>, result \<open>p + q * r2\<close>) equals the direct evaluation
  \<open>c0 * r + c1 * r^2 + c2 * r^3 + c3 * r^4 + c4 * r^5\<close> of the five-term polynomial.
\<close>

theorem estrin_poly_exact:
  "estrin_poly (\<lambda>a b c. a + b * c) (\<lambda>a b. a * b) c (r::real) =
     c 0 * r + c 1 * r ^ 2 + c 2 * r ^ 3 + c 3 * r ^ 4 + c 4 * r ^ 5"
  by (simp add: estrin_poly_def Let_def algebra_simps power2_eq_square power3_eq_cube power4_eq_xxxx eval_nat_numeral)

section \<open>Lane independence (claim C7)\<close>

text \<open>
  Claim C7. Each output lane depends only on the same input lane: two input vectors
  that agree in lane \<open>i\<close> give outputs that agree in lane \<open>i\<close>, in both builds (the
  scalar routine being any function of its argument). Moreover a lane that is not
  flagged gets the ordinary result \<^verbatim>\<open>vfmaq_f32 (scale, poly, scale)\<close> of line 131,
  whether or not another lane sends the call through the special-case handler.
\<close>

theorem lane_independence:
  "(lane x i = lane y i \<longrightarrow>
      lane (exp10_fast x) i = lane (exp10_fast y) i
      \<and> lane (exp10_except exp10f x) i = lane (exp10_except exp10f y) i)
   \<and> (lane (fast_cmp x) i = 0 \<longrightarrow> lane (exp10_fast x) i = lane (vector_path x) i)
   \<and> (lane (except_cmp x) i = 0 \<longrightarrow>
        lane (exp10_except exp10f x) i = lane (vector_path x) i)"
proof (intro conjI impI)
  assume "lane x i = lane y i"
  then show "lane (exp10_fast x) i = lane (exp10_fast y) i"
    by (simp add: lane_exp10_fast)
next
  assume "lane x i = lane y i"
  then show "lane (exp10_except exp10f x) i = lane (exp10_except exp10f y) i"
    by (simp add: lane_exp10_except)
next
  assume "lane (fast_cmp x) i = 0"
  then have c1: "\<not> lane_cmp1 (lane x i)"
    by (simp add: lane_fast_cmp mask_of_eq_0)
  then have "\<not> lane_cmp2 (lane x i)"
    using cmp2_imp_cmp1 by (auto simp: lane_cmp1_def lane_cmp2_def)
  with c1 show "lane (exp10_fast x) i = lane (vector_path x) i"
    by (simp add: lane_exp10_fast lane_fast_def lane_vector_path)
next
  assume "lane (except_cmp x) i = 0"
  then have "\<not> lane_special (lane x i)"
    by (simp add: lane_except_cmp mask_of_eq_0)
  then show "lane (exp10_except exp10f x) i = lane (vector_path x) i"
    by (simp add: lane_exp10_except lane_except_def lane_vector_path)
qed

text \<open>
  At the vectors \<open>(1, 200, 0, 0)\<close> and \<open>(1, 0, 0, 0)\<close>, lane 0: lane 1 of the first is
  flagged in both builds, lane 0 is not.
\<close>

theorem lane_independence_witness:
  "lane (Vec4 (hexf 1 0 0) (hexf 200 0 0) 0 0) 0 = lane (Vec4 (hexf 1 0 0) 0 0 0) 0
   \<and> lane (exp10_fast (Vec4 (hexf 1 0 0) (hexf 200 0 0) 0 0)) 0
       = lane (exp10_fast (Vec4 (hexf 1 0 0) 0 0 0)) 0
   \<and> lane (exp10_except (\<lambda>w. w) (Vec4 (hexf 1 0 0) (hexf 200 0 0) 0 0)) 0
       = lane (exp10_except (\<lambda>w. w) (Vec4 (hexf 1 0 0) 0 0 0)) 0
   \<and> v_any_u32 (fast_cmp (Vec4 (hexf 1 0 0) (hexf 200 0 0) 0 0))
   \<and> lane (fast_cmp (Vec4 (hexf 1 0 0) (hexf 200 0 0) 0 0)) 0 = 0
   \<and> lane (exp10_fast (Vec4 (hexf 1 0 0) (hexf 200 0 0) 0 0)) 0
       = lane (vector_path (Vec4 (hexf 1 0 0) (hexf 200 0 0) 0 0)) 0
   \<and> v_any_u32 (except_cmp (Vec4 (hexf 1 0 0) (hexf 200 0 0) 0 0))
   \<and> lane (except_cmp (Vec4 (hexf 1 0 0) (hexf 200 0 0) 0 0)) 0 = 0
   \<and> lane (exp10_except (\<lambda>w. w) (Vec4 (hexf 1 0 0) (hexf 200 0 0) 0 0)) 0
       = lane (vector_path (Vec4 (hexf 1 0 0) (hexf 200 0 0) 0 0)) 0"
proof -
  let ?x = "Vec4 (hexf 1 0 0) (hexf 200 0 0) 0 0 :: float32x4_t"
  let ?y = "Vec4 (hexf 1 0 0) 0 0 0 :: float32x4_t"
  have a: "lane ?x 0 = lane ?y 0" by simp
  have f: "v_any_u32 (fast_cmp ?x)" "lane (fast_cmp ?x) 0 = 0" by code_simp+
  have e: "v_any_u32 (except_cmp ?x)" "lane (except_cmp ?x) 0 = 0" by code_simp+
  note L = lane_independence [of ?x 0 ?y "\<lambda>w. w"]
  from L a have p1: "lane (exp10_fast ?x) 0 = lane (exp10_fast ?y) 0"
    and p2: "lane (exp10_except (\<lambda>w. w) ?x) 0 = lane (exp10_except (\<lambda>w. w) ?y) 0"
    by blast+
  from L f have p3: "lane (exp10_fast ?x) 0 = lane (vector_path ?x) 0" by blast
  from L e have p4: "lane (exp10_except (\<lambda>w. w) ?x) 0 = lane (vector_path ?x) 0" by blast
  from a f e p1 p2 p3 p4 show ?thesis by (intro conjI)
qed

section \<open>The strict build: classification (claim C2)\<close>


text \<open>
  The boundaries: \<open>38\<close> and the float just below it, \<open>2^-63\<close> and the float just below
  it, and their negatives.
\<close>

lemma strict_classification_examples:
  "hexf 38 0 0 = 0x42180000" "hexf 1 0 (- 63) = 0x20000000"
  "except_cmp (Vec4 0x42180000 0x4217ffff 0x20000000 0x1fffffff) = Vec4 (- 1) 0 0 (- 1)"
  "except_cmp (Vec4 0xc2180000 0xc217ffff 0xa0000000 0x9fffffff) = Vec4 (- 1) 0 0 (- 1)"
  "except_cmp (Vec4 0 0x7f800000 0x7fc00000 (hexf (- 1) 0 0)) = Vec4 (- 1) (- 1) (- 1) 0"
  by code_simp+

section \<open>The strict build: masking and the scalar fallback (claim C3)\<close>

text \<open>
  Claim C3. With \<^verbatim>\<open>WANT_SIMD_EXCEPT\<close> the entry point keeps its parameter in \<^verbatim>\<open>xm\<close>,
  and in a lane that is flagged in \<^verbatim>\<open>cmp\<close> its variable \<^verbatim>\<open>x\<close> is \<open>1.0\<close> when the
  arithmetic reads it: \<^verbatim>\<open>z\<close> is the word \<^verbatim>\<open>0x4b400003\<close> (\<open>shift + 3\<close>) in that lane and
  \<^verbatim>\<open>vfmaq_f32 (scale, poly, scale)\<close> is \<open>10\<close>, whatever the input was. The value returned
  for the lane is the scalar routine \<open>exp10f\<close> applied to the lane's original input. In a
  lane that is not flagged \<^verbatim>\<open>x\<close> is the input, and the value returned is
  \<^verbatim>\<open>vfmaq_f32 (scale, poly, scale)\<close>, which is the one the arithmetic gives without any
  masking (\<open>vector_path\<close>): the masking of other lanes does not change it.
\<close>

theorem strict_masking:
  "var_xm (exp10_except_locals exp10f x0) = x0
   \<and> (lane (var_cmp (exp10_except_locals exp10f x0)) i \<noteq> 0 \<longrightarrow>
        lane (var_x (exp10_except_locals exp10f x0)) i = hexf 1 0 0
        \<and> lane (var_z (exp10_except_locals exp10f x0)) i = 0x4b400003
        \<and> lane (vfmaq_f32 (var_scale (exp10_except_locals exp10f x0))
                   (var_poly (exp10_except_locals exp10f x0))
                   (var_scale (exp10_except_locals exp10f x0))) i = hexf 10 0 0
        \<and> lane (exp10_except exp10f x0) i = exp10f (lane x0 i))
   \<and> (lane (var_cmp (exp10_except_locals exp10f x0)) i = 0 \<longrightarrow>
        lane (var_x (exp10_except_locals exp10f x0)) i = lane x0 i
        \<and> lane (exp10_except exp10f x0) i
            = lane (vfmaq_f32 (var_scale (exp10_except_locals exp10f x0))
                      (var_poly (exp10_except_locals exp10f x0))
                      (var_scale (exp10_except_locals exp10f x0))) i
        \<and> lane (exp10_except exp10f x0) i = lane (vector_path x0) i)"
proof (intro conjI impI)
  show "var_xm (exp10_except_locals exp10f x0) = x0" by (rule locals_except)
next
  assume "lane (var_cmp (exp10_except_locals exp10f x0)) i \<noteq> 0"
  then have sp: "lane_special (lane x0 i)"
    by (simp add: locals_except lane_except_cmp mask_of_eq_0)
  then have m: "lane (except_masked x0) i = hexf 1 0 0" by (simp add: lane_except_masked)
  from m show "lane (var_x (exp10_except_locals exp10f x0)) i = hexf 1 0 0"
    by (simp add: locals_except)
  from m show "lane (var_z (exp10_except_locals exp10f x0)) i = 0x4b400003"
    by (simp add: locals_except lane_ops lane_data at_one [symmetric] lane_z_def)
  from m show "lane (vfmaq_f32 (var_scale (exp10_except_locals exp10f x0))
                   (var_poly (exp10_except_locals exp10f x0))
                   (var_scale (exp10_except_locals exp10f x0))) i = hexf 10 0 0"
    by (simp add: locals_except lane_vector_path at_one)
  from sp show "lane (exp10_except exp10f x0) i = exp10f (lane x0 i)"
    by (simp add: lane_exp10_except lane_except_def)
next
  assume "lane (var_cmp (exp10_except_locals exp10f x0)) i = 0"
  then have sp: "\<not> lane_special (lane x0 i)"
    by (simp add: locals_except lane_except_cmp mask_of_eq_0)
  then have m: "lane (except_masked x0) i = lane x0 i" by (simp add: lane_except_masked)
  from m show "lane (var_x (exp10_except_locals exp10f x0)) i = lane x0 i"
    by (simp add: locals_except)
  from sp show r: "lane (exp10_except exp10f x0) i = lane (vector_path x0) i"
    by (simp add: lane_exp10_except lane_except_def lane_vector_path)
  from m r show "lane (exp10_except exp10f x0) i
            = lane (vfmaq_f32 (var_scale (exp10_except_locals exp10f x0))
                      (var_poly (exp10_except_locals exp10f x0))
                      (var_scale (exp10_except_locals exp10f x0))) i"
    by (simp add: locals_except lane_vector_path)
qed

text \<open>
  At the vector \<open>(38.5, 0.5, NaN, 0)\<close>, with the successor of the bit pattern in the place
  of the scalar routine: lane 0 is flagged and returns the successor of its original
  input, lane 1 is not flagged.
\<close>

theorem strict_masking_witness:
  "lane (var_cmp (exp10_except_locals (\<lambda>w. w + 1) (Vec4 (hexf 77 1 0) (hexf 1 1 0) 0x7fc00000 0))) 0 \<noteq> 0
   \<and> lane (var_x (exp10_except_locals (\<lambda>w. w + 1) (Vec4 (hexf 77 1 0) (hexf 1 1 0) 0x7fc00000 0))) 0
       = hexf 1 0 0
   \<and> lane (exp10_except (\<lambda>w. w + 1) (Vec4 (hexf 77 1 0) (hexf 1 1 0) 0x7fc00000 0)) 0
       = hexf 77 1 0 + 1
   \<and> lane (var_cmp (exp10_except_locals (\<lambda>w. w + 1) (Vec4 (hexf 77 1 0) (hexf 1 1 0) 0x7fc00000 0))) 1 = 0
   \<and> lane (var_x (exp10_except_locals (\<lambda>w. w + 1) (Vec4 (hexf 77 1 0) (hexf 1 1 0) 0x7fc00000 0))) 1
       = hexf 1 1 0
   \<and> lane (exp10_except (\<lambda>w. w + 1) (Vec4 (hexf 77 1 0) (hexf 1 1 0) 0x7fc00000 0)) 1
       = lane (vector_path (Vec4 (hexf 77 1 0) (hexf 1 1 0) 0x7fc00000 0)) 1"
proof -
  let ?x = "Vec4 (hexf 77 1 0) (hexf 1 1 0) 0x7fc00000 0 :: float32x4_t"
  let ?f = "\<lambda>w :: f32. w + 1"
  have c0: "lane (var_cmp (exp10_except_locals ?f ?x)) 0 \<noteq> 0"
    and c1: "lane (var_cmp (exp10_except_locals ?f ?x)) 1 = 0"
    by code_simp+
  note L = strict_masking [of ?f ?x 0] and M = strict_masking [of ?f ?x 1]
  from L c0 have p1: "lane (var_x (exp10_except_locals ?f ?x)) 0 = hexf 1 0 0"
    and p2: "lane (exp10_except ?f ?x) 0 = ?f (lane ?x 0)" by blast+
  from M c1 have p3: "lane (var_x (exp10_except_locals ?f ?x)) 1 = lane ?x 1"
    and p4: "lane (exp10_except ?f ?x) 1 = lane (vector_path ?x) 1" by blast+
  from p2 have p2': "lane (exp10_except ?f ?x) 0 = hexf 77 1 0 + 1" by simp
  from p3 have p3': "lane (var_x (exp10_except_locals ?f ?x)) 1 = hexf 1 1 0" by simp
  from c0 c1 p1 p2' p3' p4 show ?thesis by (intro conjI)
qed

section \<open>The fast build: the saturating branch (claim C6)\<close>

text \<open>
  Claim C6. Without \<^verbatim>\<open>WANT_SIMD_EXCEPT\<close>, a lane with \<open>|n| > 192\<close> returns
  \<open>r2 = s1 * s1\<close>: in \<^verbatim>\<open>special_case\<close> the selection by \<open>cmp2\<close> comes last, so \<open>r2\<close>
  wins whatever \<open>cmp1\<close>, \<open>r1\<close> and \<open>r0\<close> are, and such a lane is always flagged, so the
  handler is called. The value saturates: \<open>s1\<close> is \<open>2^127\<close> and \<open>r2\<close> is \<open>+infinity\<close>
  when \<open>n > 0\<close>, \<open>s1\<close> is \<open>2^-125\<close> and \<open>r2\<close> is \<open>+0\<close> when \<open>n \<le> 0\<close>. Every finite
  input \<open>x \<ge> 59\<close> gives \<open>+infinity\<close> and every finite input \<open>x \<le> -59\<close> gives \<open>+0\<close>; in
  particular \<open>x = 200\<close> gives \<open>+infinity\<close> and \<open>x = -200\<close> gives \<open>0\<close>.
\<close>

theorem saturating_branch:
  "(fcagt (lane n i) ScaleBound \<longrightarrow>
      lane (special_case poly n e cmp1 scale) i = fmul (sc_s1 (lane n i)) (sc_s1 (lane n i)))
   \<and> (lane_cmp2 (lane x i) \<longrightarrow>
        lane (fast_cmp x) i \<noteq> 0
        \<and> lane (exp10_fast x) i = lane_r2 (lane x i)
        \<and> lane_r2 (lane x i) = (if fclez (lane_n (lane x i)) then 0 else 0x7f800000))
   \<and> (is_finite (lane x i) \<and> 59 \<le> valof (lane x i) \<longrightarrow>
        lane (exp10_fast x) i = 0x7f800000)
   \<and> (is_finite (lane x i) \<and> valof (lane x i) \<le> - 59 \<longrightarrow> lane (exp10_fast x) i = 0)
   \<and> exp10_fast (V4 (hexf 200 0 0)) = V4 0x7f800000
   \<and> exp10_fast (V4 (hexf (- 200) 0 0)) = V4 0"
proof (intro conjI impI)
  assume "fcagt (lane n i) ScaleBound"
  then show "lane (special_case poly n e cmp1 scale) i
               = fmul (sc_s1 (lane n i)) (sc_s1 (lane n i))"
    by (simp add: lane_special_case bsl_mask)
next
  assume c2: "lane_cmp2 (lane x i)"
  then have "lane_cmp1 (lane x i)"
    using cmp2_imp_cmp1 by (simp add: lane_cmp1_def lane_cmp2_def)
  then show "lane (fast_cmp x) i \<noteq> 0" by (simp add: lane_fast_cmp mask_of_eq_0)
  from c2 show "lane (exp10_fast x) i = lane_r2 (lane x i)"
    by (simp add: lane_exp10_fast lane_fast_def)
  show "lane_r2 (lane x i) = (if fclez (lane_n (lane x i)) then 0 else 0x7f800000)"
    unfolding lane_r2_def by (rule r2_cases)
next
  assume "is_finite (lane x i) \<and> 59 \<le> valof (lane x i)"
  then show "lane (exp10_fast x) i = 0x7f800000"
    using large_inputs(1) [of "lane x i"] by (simp add: lane_exp10_fast)
next
  assume "is_finite (lane x i) \<and> valof (lane x i) \<le> - 59"
  then show "lane (exp10_fast x) i = 0"
    using large_inputs(2) [of "lane x i"] by (simp add: lane_exp10_fast)
next
  show "exp10_fast (V4 (hexf 200 0 0)) = V4 0x7f800000" by code_simp
  show "exp10_fast (V4 (hexf (- 200) 0 0)) = V4 0" by code_simp
qed

text \<open>
  At \<open>n = 664\<close> in the handler, and at the vector \<open>(200, -200, 0, 0)\<close>, lanes 0 and 1.
\<close>

theorem saturating_branch_witness:
  "fcagt (lane (V4 (hexf 664 0 0)) 0) ScaleBound
   \<and> lane (special_case (V4 0) (V4 (hexf 664 0 0)) (V4 0) (V4 0) (V4 0)) 0
       = fmul (sc_s1 (hexf 664 0 0)) (sc_s1 (hexf 664 0 0))
   \<and> lane_cmp2 (lane (Vec4 (hexf 200 0 0) (hexf (- 200) 0 0) 0 0) 1)
   \<and> lane (fast_cmp (Vec4 (hexf 200 0 0) (hexf (- 200) 0 0) 0 0)) 1 \<noteq> 0
   \<and> lane (exp10_fast (Vec4 (hexf 200 0 0) (hexf (- 200) 0 0) 0 0)) 1 = 0
   \<and> fclez (lane_n (hexf (- 200) 0 0))
   \<and> is_finite (hexf 200 0 0) \<and> 59 \<le> valof (hexf 200 0 0)
   \<and> lane (exp10_fast (Vec4 (hexf 200 0 0) (hexf (- 200) 0 0) 0 0)) 0 = 0x7f800000
   \<and> is_finite (hexf (- 200) 0 0) \<and> valof (hexf (- 200) 0 0) \<le> - 59"
proof -
  let ?x = "Vec4 (hexf 200 0 0) (hexf (- 200) 0 0) 0 0 :: float32x4_t"
  have h1: "fcagt (lane (V4 (hexf 664 0 0)) 0) ScaleBound" by code_simp
  have h2: "lane_cmp2 (lane ?x 1)" by code_simp
  have h3: "fclez (lane_n (hexf (- 200) 0 0))" by code_simp
  have d: "decode (hexf 200 0 0) = VFin False 13107200 (- 16)"
    "decode (hexf (- 200) 0 0) = VFin True 13107200 (- 16)"
    by code_simp+
  have f1: "is_finite (hexf 200 0 0)" and f2: "is_finite (hexf (- 200) 0 0)"
    by code_simp+
  have v1: "59 \<le> valof (hexf 200 0 0)" and v2: "valof (hexf (- 200) 0 0) \<le> - 59"
    by (simp_all add: valof_def d power_int_minus)
  have l0: "lane ?x 0 = hexf 200 0 0" and l1: "lane ?x 1 = hexf (- 200) 0 0"
    by simp_all
  note L = saturating_branch [of "V4 (hexf 664 0 0)" 0 "V4 0" "V4 0" "V4 0" "V4 0" ?x]
  note M = saturating_branch [of "V4 0" 1 "V4 0" "V4 0" "V4 0" "V4 0" ?x]
  from L h1 have p1: "lane (special_case (V4 0) (V4 (hexf 664 0 0)) (V4 0) (V4 0) (V4 0)) 0
       = fmul (sc_s1 (lane (V4 (hexf 664 0 0)) 0)) (sc_s1 (lane (V4 (hexf 664 0 0)) 0))"
    by blast
  from f1 v1 l0 have g0: "is_finite (lane ?x 0) \<and> 59 \<le> valof (lane ?x 0)"
    by (simp only: simp_thms)
  from f2 v2 l1 have g1: "is_finite (lane ?x 1) \<and> valof (lane ?x 1) \<le> - 59"
    by (simp only: simp_thms)
  from L g0 have p6: "lane (exp10_fast ?x) 0 = 0x7f800000" by blast
  from M h2 have p2: "lane (fast_cmp ?x) 1 \<noteq> 0"
    and p3: "lane (exp10_fast ?x) 1 = lane_r2 (lane ?x 1)"
    and p4: "lane_r2 (lane ?x 1) = (if fclez (lane_n (lane ?x 1)) then 0 else 0x7f800000)"
    by blast+
  from M g1 have p7: "lane (exp10_fast ?x) 1 = 0" by blast
  from p1 have p1': "lane (special_case (V4 0) (V4 (hexf 664 0 0)) (V4 0) (V4 0) (V4 0)) 0
       = fmul (sc_s1 (hexf 664 0 0)) (sc_s1 (hexf 664 0 0))"
    by (simp add: lane_V4)
  from h1 p1' h2 p2 p7 h3 f1 v1 p6 f2 v2 show ?thesis by (intro conjI)
qed

section \<open>Lanes that are not finite, in both builds (claim C10)\<close>

text \<open>
  Claim C10, as amended. A lane that is not finite is a NaN, \<open>+infinity\<close>
  (\<^verbatim>\<open>0x7f800000\<close>) or \<open>-infinity\<close> (\<^verbatim>\<open>0xff800000\<close>). In both builds a NaN lane gives a
  NaN, \<open>+infinity\<close> gives \<open>+infinity\<close> and \<open>-infinity\<close> gives \<open>+0\<close>; for the build with
  \<^verbatim>\<open>WANT_SIMD_EXCEPT\<close> this is what the scalar routine returns, so it is assumed of
  \<open>exp10f\<close>. Without \<^verbatim>\<open>WANT_SIMD_EXCEPT\<close> an infinite lane is flagged and gets
  \<open>r2 = s1 * s1\<close>, its residual \<open>r\<close> being a NaN; a NaN lane is not flagged
  (\<open>|n| > 126\<close> is false for a NaN \<open>n\<close>) and gets its NaN from the ordinary
  \<^verbatim>\<open>vfmaq_f32 (scale, poly, scale)\<close>. With \<^verbatim>\<open>WANT_SIMD_EXCEPT\<close> every such lane is
  flagged and returns \<open>exp10f\<close> of its input.
\<close>

theorem nonfinite_lanes:
  assumes nan: "\<And>w. is_nan w \<Longrightarrow> is_nan (exp10f w)"
    and pinf: "exp10f 0x7f800000 = 0x7f800000"
    and minf: "exp10f 0xff800000 = 0"
  shows "(\<not> is_finite (lane x i)
            \<longleftrightarrow> is_nan (lane x i) \<or> lane x i = 0x7f800000 \<or> lane x i = 0xff800000)
    \<and> (is_nan (lane x i) \<longrightarrow>
          is_nan (lane (exp10_fast x) i) \<and> lane (fast_cmp x) i = 0
          \<and> lane (exp10_fast x) i = lane (vector_path x) i
          \<and> is_nan (lane (exp10_except exp10f x) i))
    \<and> (lane x i = 0x7f800000 \<longrightarrow>
          lane (exp10_fast x) i = 0x7f800000 \<and> lane (exp10_except exp10f x) i = 0x7f800000)
    \<and> (lane x i = 0xff800000 \<longrightarrow>
          lane (exp10_fast x) i = 0 \<and> lane (exp10_except exp10f x) i = 0)
    \<and> (lane x i = 0x7f800000 \<or> lane x i = 0xff800000 \<longrightarrow>
          lane (fast_cmp x) i \<noteq> 0 \<and> lane_cmp2 (lane x i)
          \<and> lane (exp10_fast x) i = lane_r2 (lane x i) \<and> is_nan (lane_r (lane x i)))
    \<and> (\<not> is_finite (lane x i) \<longrightarrow>
          lane (except_cmp x) i \<noteq> 0
          \<and> lane (exp10_except exp10f x) i = exp10f (lane x i))"
proof -
  have strict: "lane (except_cmp x) i \<noteq> 0 \<and> lane (exp10_except exp10f x) i = exp10f (lane x i)"
    if "\<not> is_finite (lane x i)"
  proof -
    from that have "lane_special (lane x i)" by (rule not_finite_special)
    then show ?thesis
      by (simp add: lane_except_cmp mask_of_eq_0 lane_exp10_except lane_except_def)
  qed
  have a: "is_nan (lane (exp10_fast x) i) \<and> lane (fast_cmp x) i = 0
          \<and> lane (exp10_fast x) i = lane (vector_path x) i
          \<and> is_nan (lane (exp10_except exp10f x) i)"
    if n: "is_nan (lane x i)"
  proof -
    from n have "decode (lane x i) = decode 0x7fc00000"
      by (simp add: decode_nan decode_consts)
    note c = lane_cong [OF this]
    have c1: "\<not> lane_cmp1 (lane x i)" and c2: "\<not> lane_cmp2 (lane x i)"
      and r0: "is_nan (lane_r0 (lane x i))"
      by (simp_all add: c fast_at_nan)
    from n have "\<not> is_finite (lane x i)" by (simp add: not_finite_iff)
    then have "lane (exp10_except exp10f x) i = exp10f (lane x i)" using strict by blast
    with n nan have "is_nan (lane (exp10_except exp10f x) i)" by simp
    with c1 c2 r0 show ?thesis
      by (simp add: lane_exp10_fast lane_fast_def lane_fast_cmp mask_of_eq_0 lane_vector_path)
  qed
  have b: "lane (fast_cmp x) i \<noteq> 0 \<and> lane_cmp2 (lane x i)
          \<and> lane (exp10_fast x) i = lane_r2 (lane x i) \<and> is_nan (lane_r (lane x i))"
    if "lane x i = 0x7f800000 \<or> lane x i = 0xff800000"
    using that fast_at_pinf fast_at_minf
    by (auto simp: lane_exp10_fast lane_fast_def lane_fast_cmp mask_of_eq_0)
  have p: "lane (exp10_fast x) i = 0x7f800000 \<and> lane (exp10_except exp10f x) i = 0x7f800000"
    if e: "lane x i = 0x7f800000"
  proof -
    from e have "\<not> is_finite (lane x i)" by (simp add: not_finite_iff)
    with strict e pinf have "lane (exp10_except exp10f x) i = 0x7f800000" by simp
    moreover from b e have "lane (exp10_fast x) i = lane_r2 (lane x i)" by blast
    ultimately show ?thesis using e by (simp add: fast_at_pinf)
  qed
  have m: "lane (exp10_fast x) i = 0 \<and> lane (exp10_except exp10f x) i = 0"
    if e: "lane x i = 0xff800000"
  proof -
    from e have "\<not> is_finite (lane x i)" by (simp add: not_finite_iff)
    with strict e minf have "lane (exp10_except exp10f x) i = 0" by simp
    moreover from b e have "lane (exp10_fast x) i = lane_r2 (lane x i)" by blast
    ultimately show ?thesis using e by (simp add: fast_at_minf)
  qed
  from not_finite_iff [of "lane x i"] a b p m strict show ?thesis by blast
qed

text \<open>
  At the vector \<open>(NaN, +infinity, -infinity, 1)\<close>, with a scalar routine that has the
  three properties assumed.
\<close>

theorem nonfinite_lanes_witness:
  "is_nan (lane (Vec4 0x7fc00000 0x7f800000 0xff800000 (hexf 1 0 0)) 0)
   \<and> is_nan (lane (exp10_fast (Vec4 0x7fc00000 0x7f800000 0xff800000 (hexf 1 0 0))) 0)
   \<and> is_nan (lane (exp10_except
         (\<lambda>w. if is_nan w then w else if w = 0xff800000 then 0 else 0x7f800000)
         (Vec4 0x7fc00000 0x7f800000 0xff800000 (hexf 1 0 0))) 0)
   \<and> lane (exp10_fast (Vec4 0x7fc00000 0x7f800000 0xff800000 (hexf 1 0 0))) 1 = 0x7f800000
   \<and> lane (exp10_except
         (\<lambda>w. if is_nan w then w else if w = 0xff800000 then 0 else 0x7f800000)
         (Vec4 0x7fc00000 0x7f800000 0xff800000 (hexf 1 0 0))) 1 = 0x7f800000
   \<and> lane (exp10_fast (Vec4 0x7fc00000 0x7f800000 0xff800000 (hexf 1 0 0))) 2 = 0
   \<and> lane (exp10_except
         (\<lambda>w. if is_nan w then w else if w = 0xff800000 then 0 else 0x7f800000)
         (Vec4 0x7fc00000 0x7f800000 0xff800000 (hexf 1 0 0))) 2 = 0"
proof -
  let ?x = "Vec4 0x7fc00000 0x7f800000 0xff800000 (hexf 1 0 0) :: float32x4_t"
  let ?f = "\<lambda>w :: f32. if is_nan w then w else if w = 0xff800000 then 0 else 0x7f800000 :: f32"
  have cls: "is_nan 0x7fc00000" "\<not> is_nan 0x7f800000" "\<not> is_nan 0xff800000"
    by code_simp+
  have f1: "\<And>w. is_nan w \<Longrightarrow> is_nan (?f w)" by simp
  have f2: "?f 0x7f800000 = 0x7f800000" using cls by simp
  have f3: "?f 0xff800000 = 0" using cls by simp
  note L0 = nonfinite_lanes [of ?f ?x 0, OF f1 f2 f3]
    and L1 = nonfinite_lanes [of ?f ?x 1, OF f1 f2 f3]
    and L2 = nonfinite_lanes [of ?f ?x 2, OF f1 f2 f3]
  have h0: "is_nan (lane ?x 0)" using cls by simp
  have h1: "lane ?x 1 = 0x7f800000" by simp
  have h2: "lane ?x 2 = 0xff800000" by simp
  from L0 h0 have p0: "is_nan (lane (exp10_fast ?x) 0)"
    and q0: "is_nan (lane (exp10_except ?f ?x) 0)" by blast+
  from L1 h1 have p1: "lane (exp10_fast ?x) 1 = 0x7f800000"
    and q1: "lane (exp10_except ?f ?x) 1 = 0x7f800000" by blast+
  from L2 h2 have p2: "lane (exp10_fast ?x) 2 = 0"
    and q2: "lane (exp10_except ?f ?x) 2 = 0" by blast+
  from h0 p0 q0 p1 q1 p2 q2 show ?thesis by (intro conjI)
qed

text \<open>
  The claim as it was stated has every lane that is not finite flagged and resolved by
  \<open>r2\<close> in the build without \<^verbatim>\<open>WANT_SIMD_EXCEPT\<close>. The NaN \<^verbatim>\<open>0x7fc00000\<close> is not
  flagged there, \<open>cmp2\<close> is false for it, and its result is the ordinary one.
\<close>

theorem nonfinite_lanes_counterexample:
  "is_nan 0x7fc00000
   \<and> lane (fast_cmp (V4 0x7fc00000)) 0 = 0
   \<and> \<not> fcagt (lane_n 0x7fc00000) ScaleBound
   \<and> lane (exp10_fast (V4 0x7fc00000)) 0 = lane (vector_path (V4 0x7fc00000)) 0"
  by code_simp

section \<open>The fast build: \<open>2^n\<close> as a product of two factors (claim C5)\<close>

text \<open>
  Claim C5. Without \<^verbatim>\<open>WANT_SIMD_EXCEPT\<close>, take a lane of the handler \<^verbatim>\<open>special_case\<close>
  that is flagged in \<^verbatim>\<open>cmp1\<close>, whose \<open>n\<close> is the integer \<open>k\<close> with \<open>126 < |k| \<le> 192\<close> and
  whose \<open>e\<close> is \<open>k\<close> shifted into the exponent field. The handler takes \<open>b = 0x82000000\<close>
  when \<open>n \<le> 0\<close> and \<open>b = 0\<close> otherwise; its factors \<open>s1 = b + 0x7f000000\<close> and
  \<open>s2 = e - b\<close> are normal floats with \<open>s1 * s2 = 2^k\<close> exactly (over the reals); \<open>|n|\<close>
  exceeds \<^verbatim>\<open>SpecialBound\<close> and not \<^verbatim>\<open>scale_thresh\<close>, so the value the handler returns
  for the lane is \<open>r1\<close>, the float \<^verbatim>\<open>vmulq_f32 (vfmaq_f32 (s2, poly, s2), s1)\<close>; and for
  every \<open>poly\<close> that float is the rounding of the exact product of \<open>2^k\<close> and the float
  \<^verbatim>\<open>fma (1, poly, 1)\<close>, that is of \<open>2^k * (1 + poly)\<close> with \<open>1 + poly\<close> rounded to a float
  first (the result is a subnormal number, a zero or an infinity where that product
  leaves the range of the normal numbers). The direct construction
  \<open>scale = e + 0x3f800000\<close> of line 111 is not a positive normal float for any such \<open>k\<close>
  but \<open>127\<close>: its exponent field has overflowed or underflowed. The entry point flags
  every input lane with this \<open>n\<close> and \<open>e\<close> and returns that rounding for it. And every
  lane \<open>y\<close> of an input of the entry point whose \<open>|n|\<close> exceeds \<^verbatim>\<open>SpecialBound\<close> and not
  \<^verbatim>\<open>scale_thresh\<close> is such a lane: its \<open>n\<close> is an integer \<open>j\<close> with \<open>126 < |j| \<le> 192\<close>,
  its \<open>e\<close> is \<open>j\<close> shifted, and the entry point returns the rounding of \<open>2^j\<close> times
  \<^verbatim>\<open>fma (1, poly, 1)\<close> for it.
\<close>

theorem two_factor_scale:
  assumes val: "valof (lane n i) = of_int k"
    and lo: "126 < \<bar>k\<bar>" and hi: "\<bar>k\<bar> \<le> 192"
    and e: "lane e i = push_bit 23 (word_of_int k)"
    and c1: "lane cmp1 i = - 1"
  shows "is_finite (lane n i)
    \<and> sc_b (lane n i) = (if k \<le> 0 then 0x82000000 else 0)
    \<and> is_normal (sc_s1 (lane n i)) \<and> is_normal (sc_s2 (lane n i) (lane e i))
    \<and> valof (sc_s1 (lane n i)) * valof (sc_s2 (lane n i) (lane e i)) = 2 powi k
    \<and> fcagt (lane n i) SpecialBound \<and> \<not> fcagt (lane n i) ScaleBound
    \<and> lane (special_case poly n e cmp1 scale) i
        = fmul (ffma (sc_s2 (lane n i) (lane e i)) (lane poly i) (sc_s2 (lane n i) (lane e i)))
            (sc_s1 (lane n i))
    \<and> lane (special_case poly n e cmp1 scale) i
        = encode (vmul (decode (ffma (hexf 1 0 0) (lane poly i) (hexf 1 0 0))) (VFin False 1 k))
    \<and> (k \<noteq> 127 \<longrightarrow>
         \<not> (is_normal (lane e i + 0x3f800000) \<and> 0 < valof (lane e i + 0x3f800000)))
    \<and> (lane_n (lane x i) = lane n i \<and> lane_e (lane x i) = lane e i \<longrightarrow>
         lane (fast_cmp x) i \<noteq> 0
         \<and> lane (exp10_fast x) i
             = encode (vmul (decode (ffma (hexf 1 0 0) (lane_poly (lane x i)) (hexf 1 0 0)))
                 (VFin False 1 k)))
    \<and> (lane_cmp1 (lane y i) \<and> \<not> lane_cmp2 (lane y i) \<longrightarrow>
         (\<exists>j. 126 < \<bar>j\<bar> \<and> \<bar>j\<bar> \<le> 192
            \<and> valof (lane_n (lane y i)) = of_int j
            \<and> lane_e (lane y i) = push_bit 23 (word_of_int j)
            \<and> lane (exp10_fast y) i
                = encode (vmul (decode (ffma (hexf 1 0 0) (lane_poly (lane y i)) (hexf 1 0 0)))
                    (VFin False 1 j))))"
proof -
  have fin: "is_finite (lane n i)"
  proof (rule ccontr)
    assume "\<not> is_finite (lane n i)"
    then have "valof (lane n i) = 0" by (rule valof_not_finite)
    with val lo show False by simp
  qed
  note F = factors [OF fin val lo hi e]
  note H = handler_r1 [OF fin val lo hi e]
  have sel: "lane (special_case poly n e cmp1 scale) i
        = fmul (ffma (sc_s2 (lane n i) (lane e i)) (lane poly i) (sc_s2 (lane n i) (lane e i)))
            (sc_s1 (lane n i))"
  proof -
    have "lane cmp1 i = mask_of True" by (simp add: c1 mask_of_def)
    then show ?thesis using H(2) by (simp add: lane_special_case bsl_mask)
  qed
  have r1: "lane (special_case poly n e cmp1 scale) i
        = encode (vmul (decode (ffma (hexf 1 0 0) (lane poly i) (hexf 1 0 0))) (VFin False 1 k))"
    by (simp only: sel H(3))
  have direct: "k \<noteq> 127 \<longrightarrow>
         \<not> (is_normal (lane e i + 0x3f800000) \<and> 0 < valof (lane e i + 0x3f800000))"
    using direct_scale_wraps [OF lo hi e] by blast
  have entry: "lane (fast_cmp x) i \<noteq> 0
         \<and> lane (exp10_fast x) i
             = encode (vmul (decode (ffma (hexf 1 0 0) (lane_poly (lane x i)) (hexf 1 0 0)))
                 (VFin False 1 k))"
    if "lane_n (lane x i) = lane n i \<and> lane_e (lane x i) = lane e i"
  proof -
    from that H(1,2) have c: "lane_cmp1 (lane x i)" "\<not> lane_cmp2 (lane x i)"
      by (simp_all add: lane_cmp1_def lane_cmp2_def)
    from c(1) have "lane (fast_cmp x) i \<noteq> 0" by (simp add: lane_fast_cmp mask_of_eq_0)
    moreover have "lane (exp10_fast x) i = lane_r1 (lane x i)"
      using c by (simp add: lane_exp10_fast lane_fast_def)
    then have "lane (exp10_fast x) i
        = fmul (ffma (sc_s2 (lane n i) (lane e i)) (lane_poly (lane x i)) (sc_s2 (lane n i) (lane e i)))
            (sc_s1 (lane n i))"
      using that by (simp add: lane_r1_def)
    then have "lane (exp10_fast x) i
             = encode (vmul (decode (ffma (hexf 1 0 0) (lane_poly (lane x i)) (hexf 1 0 0)))
                 (VFin False 1 k))"
      by (simp only: H(3))
    ultimately show ?thesis by (rule conjI)
  qed
  have every: "\<exists>j. 126 < \<bar>j\<bar> \<and> \<bar>j\<bar> \<le> 192
            \<and> valof (lane_n (lane y i)) = of_int j
            \<and> lane_e (lane y i) = push_bit 23 (word_of_int j)
            \<and> lane (exp10_fast y) i
                = encode (vmul (decode (ffma (hexf 1 0 0) (lane_poly (lane y i)) (hexf 1 0 0)))
                    (VFin False 1 j))"
    if c: "lane_cmp1 (lane y i) \<and> \<not> lane_cmp2 (lane y i)"
  proof -
    from c flagged_lane_integer [of "lane y i"] obtain j where
      j: "126 < \<bar>j\<bar>" "\<bar>j\<bar> \<le> 192" and fj: "is_finite (lane_n (lane y i))"
      and vj: "valof (lane_n (lane y i)) = of_int j"
      and ej: "lane_e (lane y i) = push_bit 23 (word_of_int j)"
      by blast
    have "lane (exp10_fast y) i = lane_r1 (lane y i)"
      using c by (simp add: lane_exp10_fast lane_fast_def)
    then have "lane (exp10_fast y) i
        = encode (vmul (decode (ffma (hexf 1 0 0) (lane_poly (lane y i)) (hexf 1 0 0)))
            (VFin False 1 j))"
      by (simp only: lane_r1_def handler_r1(3) [OF fj vj j ej])
    with j vj ej show ?thesis by blast
  qed
  from fin F(1) F(2) H(1) H(2) sel r1 direct entry every show ?thesis by blast
qed

text \<open>
  At the input \<open>-40\<close>, where \<open>n = -133\<close> and the result is the subnormal number
  \<open>71362 * 2^-149\<close>, and at the input \<open>38.5\<close>, where \<open>n = 128\<close>, the direct \<open>scale\<close> is
  the pattern of infinity and the result is finite.
\<close>

theorem two_factor_scale_witness:
  "is_finite (lane_n (hexf (- 40) 0 0))
   \<and> valof (lane_n (hexf (- 40) 0 0)) = of_int (- 133)
   \<and> lane_e (hexf (- 40) 0 0) = push_bit 23 (word_of_int (- 133))
   \<and> sc_b (lane_n (hexf (- 40) 0 0)) = 0x82000000
   \<and> is_normal (sc_s1 (lane_n (hexf (- 40) 0 0)))
   \<and> is_normal (sc_s2 (lane_n (hexf (- 40) 0 0)) (lane_e (hexf (- 40) 0 0)))
   \<and> valof (sc_s1 (lane_n (hexf (- 40) 0 0)))
       * valof (sc_s2 (lane_n (hexf (- 40) 0 0)) (lane_e (hexf (- 40) 0 0)))
       = 2 powi (- 133)
   \<and> lane (special_case (V4 (lane_poly (hexf (- 40) 0 0))) (V4 (lane_n (hexf (- 40) 0 0)))
         (V4 (lane_e (hexf (- 40) 0 0))) (V4 (- 1)) (V4 (lane_scale (hexf (- 40) 0 0)))) 0
       = 71362
   \<and> lane (exp10_fast (V4 (hexf (- 40) 0 0))) 0 = 71362
   \<and> lane_cmp1 (hexf (- 40) 0 0) \<and> \<not> lane_cmp2 (hexf (- 40) 0 0)
   \<and> (\<exists>j. 126 < \<bar>j\<bar> \<and> \<bar>j\<bar> \<le> 192
         \<and> valof (lane_n (hexf (- 40) 0 0)) = of_int j
         \<and> lane_e (hexf (- 40) 0 0) = push_bit 23 (word_of_int j)
         \<and> lane (exp10_fast (V4 (hexf (- 40) 0 0))) 0
             = encode (vmul (decode (ffma (hexf 1 0 0) (lane_poly (hexf (- 40) 0 0)) (hexf 1 0 0)))
                 (VFin False 1 j)))
   \<and> is_finite (lane_n (hexf 77 1 0))
   \<and> valof (lane_n (hexf 77 1 0)) = of_int 128
   \<and> lane_e (hexf 77 1 0) = push_bit 23 (word_of_int 128)
   \<and> lane_e (hexf 77 1 0) + 0x3f800000 = 0x7f800000
   \<and> \<not> is_normal (lane_e (hexf 77 1 0) + 0x3f800000)
   \<and> lane (exp10_fast (V4 (hexf 77 1 0))) 0 = 0x7f6de740"
proof -
  let ?x = "hexf (- 40) 0 0"
  let ?y = "hexf 77 1 0"
  have n: "lane_n ?x = 0xc3050000" by code_simp
  have d: "decode 0xc3050000 = VFin True 8716288 (- 16)" by code_simp
  have val: "valof (lane_n ?x) = of_int (- 133)"
    by (simp add: n valof_def d power_int_minus)
  have e: "lane_e ?x = push_bit 23 (word_of_int (- 133))" by code_simp
  have lo: "126 < \<bar>- 133 :: int\<bar>" and hi: "\<bar>- 133 :: int\<bar> \<le> 192" by simp_all
  have c: "lane (V4 (- 1 :: u32)) 0 = - 1" by (simp add: lane_V4)
  have r: "encode (vmul (decode (ffma (hexf 1 0 0) (lane_poly ?x) (hexf 1 0 0)))
      (VFin False 1 (- 133))) = 71362"
    by code_simp
  note L = two_factor_scale [of "V4 (lane_n ?x)" 0 "- 133" "V4 (lane_e ?x)" "V4 (- 1)"
      "V4 (lane_poly ?x)" "V4 (lane_scale ?x)" "V4 ?x" "V4 ?x", unfolded lane_V4, OF val lo hi e refl]
  from L have p1: "sc_b (lane_n ?x) = 0x82000000" by simp
  from L have fin: "is_finite (lane_n ?x)" by blast
  from L have p2: "is_normal (sc_s1 (lane_n ?x))"
    and p3: "is_normal (sc_s2 (lane_n ?x) (lane_e ?x))"
    and p4: "valof (sc_s1 (lane_n ?x)) * valof (sc_s2 (lane_n ?x) (lane_e ?x)) = 2 powi (- 133)"
    and p5: "lane (special_case (V4 (lane_poly ?x)) (V4 (lane_n ?x)) (V4 (lane_e ?x)) (V4 (- 1))
         (V4 (lane_scale ?x))) 0
       = encode (vmul (decode (ffma (hexf 1 0 0) (lane_poly ?x) (hexf 1 0 0))) (VFin False 1 (- 133)))"
    and p6: "lane (exp10_fast (V4 ?x)) 0
       = encode (vmul (decode (ffma (hexf 1 0 0) (lane_poly ?x) (hexf 1 0 0))) (VFin False 1 (- 133)))"
    by blast+
  note p5' = p5 [unfolded r] and p6' = p6 [unfolded r]
  have cc: "lane_cmp1 ?x" "\<not> lane_cmp2 ?x" by code_simp+
  from L cc have p7: "\<exists>j. 126 < \<bar>j\<bar> \<and> \<bar>j\<bar> \<le> 192
         \<and> valof (lane_n ?x) = of_int j
         \<and> lane_e ?x = push_bit 23 (word_of_int j)
         \<and> lane (exp10_fast (V4 ?x)) 0
             = encode (vmul (decode (ffma (hexf 1 0 0) (lane_poly ?x) (hexf 1 0 0)))
                 (VFin False 1 j))"
    by blast
  have n2: "lane_n ?y = 0x43000000" by code_simp
  have d2: "decode 0x43000000 = VFin False 8388608 (- 16)" by code_simp
  have val2: "valof (lane_n ?y) = of_int 128"
    by (simp add: n2 valof_def d2 power_int_minus)
  have e2: "lane_e ?y = push_bit 23 (word_of_int 128)" by code_simp
  have lo2: "126 < \<bar>128 :: int\<bar>" and hi2: "\<bar>128 :: int\<bar> \<le> 192" by simp_all
  have r2: "encode (vmul (decode (ffma (hexf 1 0 0) (lane_poly ?y) (hexf 1 0 0)))
      (VFin False 1 128)) = 0x7f6de740"
    by code_simp
  have s: "lane_e ?y + 0x3f800000 = 0x7f800000" by code_simp
  note M = two_factor_scale [of "V4 (lane_n ?y)" 0 128 "V4 (lane_e ?y)" "V4 (- 1)"
      "V4 (lane_poly ?y)" "V4 (lane_scale ?y)" "V4 ?y" "V4 ?y", unfolded lane_V4, OF val2 lo2 hi2 e2 refl]
  from M have fin2: "is_finite (lane_n ?y)" by blast
  from M have q2: "lane (exp10_fast (V4 ?y)) 0
       = encode (vmul (decode (ffma (hexf 1 0 0) (lane_poly ?y) (hexf 1 0 0))) (VFin False 1 128))"
    by simp
  have q1': "\<not> is_normal (lane_e ?y + 0x3f800000)" unfolding s by code_simp
  note q2' = q2 [unfolded r2]
  from fin val e p1 p2 p3 p4 p5' p6' cc p7 fin2 val2 e2 s q1' q2' show ?thesis by (intro conjI)
qed

section \<open>The constant table (claim C9)\<close>

text \<open>
  Claim C9. The field \<open>shift\<close> is \<open>1.5 * 2^23\<close> exactly. The field named \<open>log10_2\<close>
  (\<^verbatim>\<open>0x1.a934fp+1\<close>) is \<open>log2(10)\<close> rounded to single precision: it is within half a
  unit in the last place (\<open>2^-23\<close>) of \<open>log2(10)\<close>, and no finite binary32 number is
  nearer. The fields \<open>log2_10_hi\<close> (\<^verbatim>\<open>0x1.344136p-2\<close>) and \<open>log2_10_lo\<close>
  (\<^verbatim>\<open>-0x1.ec10cp-27\<close>) decompose \<open>log10(2)\<close>: the high word alone is within \<open>2^-26\<close>
  of it (half a unit in its last place), the exact sum of both within \<open>2^-53\<close>.
\<close>

theorem constant_table:
  "valof (lane (shift data) i) = 3 / 2 * 2 ^ 23
   \<and> \<bar>valof (lane (log10_2 data) i) - log 2 10\<bar> < 1 / 2 ^ 23
   \<and> (is_finite w \<longrightarrow>
        \<bar>valof (lane (log10_2 data) i) - log 2 10\<bar> \<le> \<bar>valof w - log 2 10\<bar>)
   \<and> \<bar>valof (lane (log2_10_hi data) i) - log 10 2\<bar> < 1 / 2 ^ 26
   \<and> \<bar>valof (lane (log2_10_hi data) i) + valof (lane (log2_10_lo data) i) - log 10 2\<bar>
        < 1 / 2 ^ 53"
proof -
  have v: "valof (lane (shift data) i) = 12582912"
    "valof (lane (log10_2 data) i) = 13933176 / 2 ^ 22"
    "valof (lane (log2_10_hi data) i) = 10100891 / 2 ^ 25"
    "valof (lane (log2_10_lo data) i) = - (16124000 / 2 ^ 50)"
    by (simp_all only: lane_data const_values)
  have s: "valof (lane (shift data) i) = 3 / 2 * 2 ^ 23"
    by (simp add: v)
  have "13933176 / 2 ^ 22 - log 2 10 < 1 / 2 ^ 23
        \<and> - (13933176 / 2 ^ 22 - log 2 10) < 1 / 2 ^ 23"
    using log2_10_bounds by simp
  then have c: "\<bar>valof (lane (log10_2 data) i) - log 2 10\<bar> < 1 / 2 ^ 23"
    by (simp only: v abs_less_iff)
  have "10100891 / 2 ^ 25 - log 10 2 < 1 / 2 ^ 26
        \<and> - (10100891 / 2 ^ 25 - log 10 2) < 1 / 2 ^ 26"
    using log10_2_bounds(3,4) by simp
  then have h: "\<bar>valof (lane (log2_10_hi data) i) - log 10 2\<bar> < 1 / 2 ^ 26"
    by (simp only: v abs_less_iff)
  have "10100891 / 2 ^ 25 + - (16124000 / 2 ^ 50) - log 10 2 < 1 / 2 ^ 53
        \<and> - (10100891 / 2 ^ 25 + - (16124000 / 2 ^ 50) - log 10 2) < 1 / 2 ^ 53"
    using log10_2_bounds(1,2) by simp
  then have hl: "\<bar>valof (lane (log2_10_hi data) i) + valof (lane (log2_10_lo data) i)
                   - log 10 2\<bar> < 1 / 2 ^ 53"
    by (simp only: v abs_less_iff)
  have n: "\<bar>valof (lane (log10_2 data) i) - log 2 10\<bar> \<le> \<bar>valof w - log 2 10\<bar>"
    if "is_finite w"
  proof -
    from that have "\<bar>13933176 / 2 ^ 22 - log 2 10\<bar> \<le> \<bar>valof w - log 2 10\<bar>"
      by (rule log2_10_nearest)
    then show ?thesis by (simp only: v)
  qed
  from s c n h hl show ?thesis by blast
qed

text \<open>At the next binary32 number above the constant, \<^verbatim>\<open>0x40549a79\<close>.\<close>

theorem constant_table_witness:
  "is_finite 0x40549a79
   \<and> \<bar>valof (lane (log10_2 data) 0) - log 2 10\<bar> \<le> \<bar>valof 0x40549a79 - log 2 10\<bar>"
proof -
  have f: "is_finite 0x40549a79" by code_simp
  with constant_table [of 0 "0x40549a79"] show ?thesis by blast
qed

end
